theory Spec2Isabelle
  imports Complex_Main "HOL-Library.AList" "HOL-Library.Sublist"
begin

section \<open>Python exceptions\<close>

text \<open>
  Exceptions are values. \<open>KeyError\<close>, \<open>IndexError\<close> and \<open>TypeError\<close> are the ones
  Python's own containers and \<open>None\<close> raise; \<open>DecoderError\<close> stands for any exception
  raised inside the document-decoding library (PyMuPDF) or the image library (Qt).
\<close>

datatype exn = KeyError | IndexError | TypeError | DecoderError

section \<open>\<open>collections.OrderedDict\<close>\<close>

text \<open>
  An ordered dictionary is an association list in insertion order: the head is the
  oldest entry, the last element the newest.
\<close>

type_synonym ('k, 'v) odict = "('k \<times> 'v) list"

text \<open>\<^verbatim>\<open>k in d\<close>\<close>

definition od_contains :: "('k, 'v) odict \<Rightarrow> 'k \<Rightarrow> bool" where
  "od_contains d k = (map_of d k \<noteq> None)"

text \<open>\<^verbatim>\<open>d.pop(k)\<close>: the value and the dictionary without the key; KeyError on a missing key.\<close>

definition od_pop :: "('k, 'v) odict \<Rightarrow> 'k \<Rightarrow> exn + ('v \<times> ('k, 'v) odict)" where
  "od_pop d k = (case map_of d k of
                   None \<Rightarrow> Inl KeyError
                 | Some v \<Rightarrow> Inr (v, AList.delete k d))"

text \<open>\<^verbatim>\<open>d[k] = v\<close>: replaces the value in place when the key exists, appends otherwise.\<close>

definition od_setitem :: "('k, 'v) odict \<Rightarrow> 'k \<Rightarrow> 'v \<Rightarrow> ('k, 'v) odict" where
  "od_setitem d k v = AList.update k v d"

text \<open>\<^verbatim>\<open>d.popitem(last=False)\<close>: drops the oldest entry; KeyError on an empty dictionary.\<close>

definition od_popitem_first :: "('k, 'v) odict \<Rightarrow> exn + ('k, 'v) odict" where
  "od_popitem_first d = (case d of [] \<Rightarrow> Inl KeyError | x # xs \<Rightarrow> Inr xs)"

section \<open>\<open>LRUCache\<close>\<close>

text \<open>
  \<^verbatim>\<open>self.max\<close> is a Python int (nothing in the class keeps it non-negative) and
  \<^verbatim>\<open>self.d\<close> is the ordered dictionary.
\<close>

record ('k, 'v) LRUCache =
  lru_max :: int
  lru_d :: "('k, 'v) odict"

definition LRUCache_init :: "int \<Rightarrow> ('k, 'v) LRUCache" where
  "LRUCache_init max_items = \<lparr>lru_max = max_items, lru_d = []\<rparr>"

text \<open>
  \<^verbatim>\<open>
  def get(self,k):
      if k in self.d: v=self.d.pop(k); self.d[k]=v; return v
      return None
  \<close>
  The pop is guarded by the membership test, so \<open>get\<close> cannot raise.
\<close>

definition LRUCache_get :: "('k, 'v) LRUCache \<Rightarrow> 'k \<Rightarrow> 'v option \<times> ('k, 'v) LRUCache" where
  "LRUCache_get c k =
     (if od_contains (lru_d c) k then
        (case od_pop (lru_d c) k of
           Inr (v, d1) \<Rightarrow> (Some v, c\<lparr>lru_d := od_setitem d1 k v\<rparr>)
         | Inl e \<Rightarrow> (None, c))
      else (None, c))"

text \<open>
  \<^verbatim>\<open>while len(self.d)>self.max: self.d.popitem(last=False)\<close>
  With a negative \<^verbatim>\<open>self.max\<close> the loop reaches the empty dictionary and
  \<^verbatim>\<open>popitem\<close> raises.
\<close>

function evict :: "int \<Rightarrow> ('k, 'v) odict \<Rightarrow> exn + ('k, 'v) odict" where
  "evict mx d =
     (if int (length d) > mx then
        (case od_popitem_first d of Inl e \<Rightarrow> Inl e | Inr d' \<Rightarrow> evict mx d')
      else Inr d)"
  by pat_completeness auto
termination
  by (relation "measure (\<lambda>(mx, d). length d)")
     (auto simp: od_popitem_first_def split: list.splits)

declare evict.simps [simp del]

text \<open>
  \<^verbatim>\<open>
  def put(self,k,v):
      if k in self.d: self.d.pop(k)
      self.d[k]=v
      while len(self.d)>self.max: self.d.popitem(last=False)
  \<close>
\<close>

definition LRUCache_put :: "('k, 'v) LRUCache \<Rightarrow> 'k \<Rightarrow> 'v \<Rightarrow> exn + ('k, 'v) LRUCache" where
  "LRUCache_put c k v =
     (let d1 = (if od_contains (lru_d c) k then AList.delete k (lru_d c) else lru_d c);
          d2 = od_setitem d1 k v
      in case evict (lru_max c) d2 of
           Inl e \<Rightarrow> Inl e
         | Inr d3 \<Rightarrow> Inr (c\<lparr>lru_d := d3\<rparr>))"

text \<open>A sequence of cache operations, stopping at the first exception.\<close>

datatype ('k, 'v) cache_op = Get 'k | Put 'k 'v

fun run_ops :: "('k, 'v) LRUCache \<Rightarrow> ('k, 'v) cache_op list \<Rightarrow> exn + ('k, 'v) LRUCache" where
  "run_ops c [] = Inr c"
| "run_ops c (Get k # ops) = run_ops (snd (LRUCache_get c k)) ops"
| "run_ops c (Put k v # ops) =
     (case LRUCache_put c k v of Inl e \<Rightarrow> Inl e | Inr c' \<Rightarrow> run_ops c' ops)"

fun put_all :: "('k, 'v) LRUCache \<Rightarrow> ('k \<times> 'v) list \<Rightarrow> exn + ('k, 'v) LRUCache" where
  "put_all c [] = Inr c"
| "put_all c ((k, v) # kvs) =
     (case LRUCache_put c k v of Inl e \<Rightarrow> Inl e | Inr c' \<Rightarrow> put_all c' kvs)"

text \<open>The last \<open>n\<close> elements of a list: what the eviction loop leaves of an over-full dictionary.\<close>

definition lastN :: "nat \<Rightarrow> 'a list \<Rightarrow> 'a list" where
  "lastN n xs = drop (length xs - n) xs"

section \<open>Python strings\<close>

text \<open>
  A Python \<open>str\<close> is a sequence of Unicode code points, so \<open>len\<close> is \<open>length\<close>.
  \<open>lit\<close> embeds an ASCII literal.
\<close>

type_synonym pystr = "nat list"

definition lit :: "string \<Rightarrow> pystr" where
  "lit s = map of_char s"

definition NL :: pystr where
  "NL = [10]"

text \<open>The code points \<^verbatim>\<open>str.isspace\<close> accepts; \<^verbatim>\<open>strip\<close> and \<^verbatim>\<open>rstrip\<close> remove them.\<close>

definition isspace :: "nat \<Rightarrow> bool" where
  "isspace c =
     (c \<in> set [9, 10, 11, 12, 13, 28, 29, 30, 31, 32, 133, 160, 5760,
               8232, 8233, 8239, 8287, 12288]
      \<or> (8192 \<le> c \<and> c \<le> 8202))"

definition lstrip :: "pystr \<Rightarrow> pystr" where
  "lstrip s = dropWhile isspace s"

definition rstrip :: "pystr \<Rightarrow> pystr" where
  "rstrip s = rev (dropWhile isspace (rev s))"

definition strip :: "pystr \<Rightarrow> pystr" where
  "strip s = rstrip (lstrip s)"

text \<open>\<^verbatim>\<open>sep.join(xs)\<close>\<close>

fun join :: "pystr \<Rightarrow> pystr list \<Rightarrow> pystr" where
  "join sep [] = []"
| "join sep [x] = x"
| "join sep (x # y # ys) = x @ sep @ join sep (y # ys)"

text \<open>\<^verbatim>\<open>s[a:b]\<close> for non-negative bounds: both are clamped to the length.\<close>

definition pyslice :: "'a list \<Rightarrow> nat \<Rightarrow> nat \<Rightarrow> 'a list" where
  "pyslice s a b = take (b - a) (drop a s)"

text \<open>The decimal rendering of a non-negative integer inside an f-string.\<close>

fun str_nat :: "nat \<Rightarrow> pystr" where
  "str_nat n = (if n < 10 then [48 + n] else str_nat (n div 10) @ [48 + n mod 10])"

declare str_nat.simps [simp del]

text \<open>\<^verbatim>\<open>f"[FIGURE {fig_id} (p{pno+1})]"\<close>\<close>

definition marker :: "nat \<Rightarrow> nat \<Rightarrow> pystr" where
  "marker fid pno = lit ''[FIGURE '' @ str_nat fid @ lit '' (p'' @ str_nat (pno + 1) @ lit '')]''"

section \<open>What the decoder reports\<close>

text \<open>
  The document-decoding library is an external collaborator: a page is the record of
  what its calls return, each call that the source leaves unguarded or wraps in
  \<^verbatim>\<open>try\<close> being allowed to raise. Floating-point quantities (layout coordinates,
  scale factors) are idealised as reals; no property below depends on their values.
\<close>

datatype pyval = VNone | VInt int | VBytes "nat list"

fun truthy :: "pyval \<Rightarrow> bool" where
  "truthy VNone = False"
| "truthy (VInt n) = (n \<noteq> 0)"
| "truthy (VBytes bs) = (bs \<noteq> [])"

text \<open>\<^verbatim>\<open>a or b\<close>\<close>

definition py_or :: "pyval \<Rightarrow> pyval \<Rightarrow> pyval" where
  "py_or a b = (if truthy a then a else b)"

type_synonym bbox = "real \<times> real \<times> real \<times> real"

text \<open>
  A span is its \<^verbatim>\<open>"text"\<close> entry and a line its \<^verbatim>\<open>"spans"\<close> entry, \<open>None\<close> when the
  key is missing. In a block, \<open>b_xref\<close> and \<open>b_image\<close> are \<open>VNone\<close> for a missing key,
  which is what \<^verbatim>\<open>blk.get\<close> returns.
\<close>

type_synonym span = "pystr option"
type_synonym line = "span list option"

record block =
  b_type :: "int option"
  b_bbox :: "bbox option"
  b_lines :: "line list option"
  b_xref :: pyval
  b_image :: pyval

record pixmap =
  pm_width :: int
  pm_height :: int
  pm_n :: int
  pm_stride :: int
  pm_samples :: "nat list"
  pm_tobytes_png :: "exn + nat list"

text \<open>
  \<open>p_text\<close> is \<^verbatim>\<open>page.get_text("text")\<close>, \<open>p_rawdict\<close> the \<^verbatim>\<open>"blocks"\<close> entry of
  \<^verbatim>\<open>page.get_text("rawdict")\<close> (\<open>None\<close> when the key is missing), \<open>p_rect_height\<close> is
  \<^verbatim>\<open>page.rect.height\<close>, \<open>p_images\<close> the first component (the xref) of every entry of
  \<^verbatim>\<open>page.get_images(full=False)\<close>, and \<open>p_get_pixmap s\<close> is
  \<^verbatim>\<open>page.get_pixmap(matrix=fitz.Matrix(s,s), alpha=False)\<close>.
\<close>

record page =
  p_text :: "exn + pystr option"
  p_rawdict :: "exn + block list option"
  p_rect_height :: real
  p_images :: "exn + int list"
  p_get_pixmap :: "real \<Rightarrow> exn + pixmap"

section \<open>The extractor\<close>

record figure =
  f_page :: nat
  f_xref :: pyval
  f_bbox :: "bbox option"

text \<open>
  The state of a build loop: the locals \<^verbatim>\<open>parts\<close>, \<^verbatim>\<open>char_count\<close>, \<^verbatim>\<open>fig_id\<close>, and
  \<^verbatim>\<open>self.figures\<close> and \<^verbatim>\<open>self.page_offsets\<close> (here \<open>figs\<close> and \<open>offs\<close>) while they
  are being filled.
\<close>

record bstate =
  parts :: "pystr list"
  char_count :: nat
  fig_id :: nat
  figs :: "(nat, figure) odict"
  offs :: "(nat \<times> nat) list"

text \<open>The state after \<^verbatim>\<open>self.figures.clear(); self.page_offsets.clear()\<close>.\<close>

definition bstate0 :: bstate where
  "bstate0 = \<lparr>parts = [], char_count = 0, fig_id = 0, figs = [], offs = []\<rparr>"

text \<open>\<^verbatim>\<open>parts.append(s); char_count+=len(s); parts.append(sep); char_count+=n\<close>\<close>

definition emit :: "pystr \<Rightarrow> pystr \<Rightarrow> nat \<Rightarrow> bstate \<Rightarrow> bstate" where
  "emit s sep n st = st\<lparr>parts := parts st @ [s, sep], char_count := char_count st + length s + n\<rparr>"

text \<open>
  \<^verbatim>\<open>
  for info in imgs:
      xref=info[0]; fig_id+=1
      marks.append(f"[FIGURE {fig_id} (p{pno+1})]")
      self.figures[fig_id]={"page":pno,"xref":xref,"bbox":None}
  \<close>
\<close>

fun mark_images :: "nat \<Rightarrow> int list \<Rightarrow> pystr list \<times> bstate \<Rightarrow> pystr list \<times> bstate" where
  "mark_images pno [] acc = acc"
| "mark_images pno (xref # infos) (marks, st) =
     (let fid = fig_id st + 1
      in mark_images pno infos
           (marks @ [marker fid pno],
            st\<lparr>fig_id := fid,
               figs := od_setitem (figs st) fid \<lparr>f_page = pno, f_xref = VInt xref, f_bbox = None\<rparr>\<rparr>))"

text \<open>
  \<^verbatim>\<open>txt=(page.get_text("text") or "").strip()
  if txt: parts.append(txt); char_count+=len(txt); parts.append("\n\n"); char_count+=2\<close>
\<close>

definition emit_plain_text :: "pystr option \<Rightarrow> bstate \<Rightarrow> bstate" where
  "emit_plain_text t st =
     (let txt = strip (case t of None \<Rightarrow> [] | Some s \<Rightarrow> s)
      in if txt \<noteq> [] then emit txt (NL @ NL) 2 st else st)"

text \<open>One iteration of the loop of \<^verbatim>\<open>_build_simple\<close>, lines 48 to 61.\<close>

definition simple_page :: "nat \<Rightarrow> page \<Rightarrow> bstate \<Rightarrow> exn + bstate" where
  "simple_page pno pg st =
     (let start = char_count st
      in case p_text pg of
           Inl e \<Rightarrow> Inl e
         | Inr t \<Rightarrow>
             let st1 = emit_plain_text t st;
                 imgs = (case p_images pg of Inl e \<Rightarrow> [] | Inr is \<Rightarrow> is);
                 st2 = (if imgs \<noteq> [] then
                          (case mark_images pno imgs ([], st1) of
                             (marks, st') \<Rightarrow> emit (join (lit '' '') marks) (NL @ NL) 2 st')
                        else st1)
             in Inr (st2\<lparr>offs := offs st2 @ [(start, char_count st2)]\<rparr>))"

text \<open>\<^verbatim>\<open>"".join(sp.get("text","") for sp in line.get("spans",[]))\<close>\<close>

definition line_text :: "line \<Rightarrow> pystr" where
  "line_text li =
     concat (map (\<lambda>sp. case sp of None \<Rightarrow> [] | Some t \<Rightarrow> t)
                 (case li of None \<Rightarrow> [] | Some sps \<Rightarrow> sps))"

text \<open>
  \<^verbatim>\<open>
  for line in blk.get("lines",[]):
      s=...
      if s.strip():
          parts.append(s); char_count+=len(s); parts.append("\n"); char_count+=1; wrote=True
  \<close>
\<close>

fun text_lines :: "line list \<Rightarrow> bstate \<times> bool \<Rightarrow> bstate \<times> bool" where
  "text_lines [] acc = acc"
| "text_lines (li # lis) (st, wrote) =
     (let s = line_text li
      in if strip s \<noteq> [] then text_lines lis (emit s NL 1 st, True)
         else text_lines lis (st, wrote))"

text \<open>
  The body of \<^verbatim>\<open>for blk in raw.get("blocks",[])\<close>, lines 72 to 87. The first branch
  is the \<^verbatim>\<open>continue\<close> of header and footer stripping.
\<close>

definition struct_block :: "bool \<Rightarrow> real \<Rightarrow> nat \<Rightarrow> block \<Rightarrow> bstate \<times> bool \<Rightarrow> bstate \<times> bool" where
  "struct_block strip_h page_h pno blk acc =
     (let btype = (case b_type blk of None \<Rightarrow> 0 | Some t \<Rightarrow> t);
          bb = (case b_bbox blk of None \<Rightarrow> (0, 0, 0, 0) | Some b \<Rightarrow> b);
          top_cut = (if strip_h then 60 else - 1000000000);
          bot_cut = (if strip_h then page_h - 60 else 1000000000)
      in case bb of (x0, y0, x1, y1) \<Rightarrow>
         if strip_h \<and> btype = 0 \<and> (y1 \<le> top_cut \<or> y0 \<ge> bot_cut) then acc
         else if btype = 0 then
           (case text_lines (case b_lines blk of None \<Rightarrow> [] | Some ls \<Rightarrow> ls) acc of
              (st, wrote) \<Rightarrow>
                (st\<lparr>parts := parts st @ [NL], char_count := char_count st + 1\<rparr>, wrote))
         else if btype = 1 then
           (let xref = py_or (b_xref blk) (b_image blk)
            in if truthy xref then
                 (case acc of (st, wrote) \<Rightarrow>
                    (let fid = fig_id st + 1;
                         st1 = emit (marker fid pno) (NL @ NL) 2 (st\<lparr>fig_id := fid\<rparr>)
                     in (st1\<lparr>figs := od_setitem (figs st1) fid
                                      \<lparr>f_page = pno, f_xref = xref, f_bbox = Some bb\<rparr>\<rparr>,
                         wrote)))
               else acc)
         else acc)"

text \<open>One iteration of the loop of \<^verbatim>\<open>_build_structured\<close>, lines 67 to 91.\<close>

definition struct_page :: "bool \<Rightarrow> nat \<Rightarrow> page \<Rightarrow> bstate \<Rightarrow> exn + bstate" where
  "struct_page strip_h pno pg st =
     (let start = char_count st
      in case p_rawdict pg of
           Inl e \<Rightarrow> Inl e
         | Inr raw \<Rightarrow>
             (case fold (struct_block strip_h (p_rect_height pg) pno)
                        (case raw of None \<Rightarrow> [] | Some bs \<Rightarrow> bs) (st, False) of
                (st1, wrote) \<Rightarrow>
                  if \<not> wrote then
                    (case p_text pg of
                       Inl e \<Rightarrow> Inl e
                     | Inr t \<Rightarrow>
                         (let st2 = emit_plain_text t st1
                          in Inr (st2\<lparr>offs := offs st2 @ [(start, char_count st2)]\<rparr>)))
                  else Inr (st1\<lparr>offs := offs st1 @ [(start, char_count st1)]\<rparr>)))"

text \<open>\<^verbatim>\<open>self.doc[pno]\<close> for \<open>pno \<ge> 0\<close>; \<^verbatim>\<open>self.doc\<close> is \<open>None\<close> before \<open>open\<close> and after \<open>close\<close>.\<close>

definition doc_getitem :: "page list option \<Rightarrow> nat \<Rightarrow> exn + page" where
  "doc_getitem d pno =
     (case d of
        None \<Rightarrow> Inl TypeError
      | Some pgs \<Rightarrow> if pno < length pgs then Inr (pgs ! pno) else Inl IndexError)"

text \<open>\<^verbatim>\<open>range(n)\<close>\<close>

definition py_range :: "int \<Rightarrow> nat list" where
  "py_range n = [0..<nat n]"

text \<open>
  \<^verbatim>\<open>for pno in range(self.page_count): page=self.doc[pno]; ...\<close>, the loop both
  builders share; \<open>step\<close> is the loop body.
\<close>

fun build_loop ::
  "(nat \<Rightarrow> page \<Rightarrow> bstate \<Rightarrow> exn + bstate) \<Rightarrow> page list option \<Rightarrow> nat list \<Rightarrow> bstate \<Rightarrow> exn + bstate"
where
  "build_loop step d [] st = Inr st"
| "build_loop step d (pno # pnos) st =
     (case doc_getitem d pno of
        Inl e \<Rightarrow> Inl e
      | Inr pg \<Rightarrow>
          (case step pno pg st of
             Inl e \<Rightarrow> Inl e
           | Inr st' \<Rightarrow> build_loop step d pnos st'))"

section \<open>\<open>DocModel\<close>\<close>

datatype qformat = Format_Grayscale8 | Format_RGB888 | Format_RGBA8888

text \<open>
  A \<^verbatim>\<open>QImage\<close>: decoded from PNG bytes (\<^verbatim>\<open>QImage.fromData(data,"PNG").copy()\<close>), built
  from raw samples (\<^verbatim>\<open>QImage(pix.samples,pix.width,pix.height,pix.stride,fmt).copy()\<close>),
  or the placeholder tile of the given width and height with its diagnostic text.
\<close>

datatype image =
    FromData "nat list"
  | FromSamples "nat list" int int int qformat
  | Tile int int pystr

type_synonym page_key = "int \<times> int \<times> int"

record DocModel =
  doc :: "page list option"
  page_count :: int
  dpi :: int
  mode :: string
  strip_headers :: bool
  merged_text :: pystr
  figures :: "(nat, figure) odict"
  page_offsets :: "(nat \<times> nat) list"
  page_pix_cache :: "(page_key, image) LRUCache"

text \<open>\<^verbatim>\<open>__init__\<close>, lines 32 to 37.\<close>

definition DocModel_init :: "int \<Rightarrow> string \<Rightarrow> bool \<Rightarrow> DocModel" where
  "DocModel_init dpi0 mode0 strip0 =
     \<lparr>doc = None, page_count = 0, dpi = max 72 (min dpi0 220), mode = mode0,
      strip_headers = strip0, merged_text = [], figures = [], page_offsets = [],
      page_pix_cache = LRUCache_init 20\<rparr>"

text \<open>
  \<^verbatim>\<open>_build_simple\<close> and \<^verbatim>\<open>_build_structured\<close>: the cleared state, the loop over
  \<^verbatim>\<open>range(self.page_count)\<close>, and \<^verbatim>\<open>self.merged_text="".join(parts).rstrip()\<close>.
  When the loop raises, the assignment to \<^verbatim>\<open>merged_text\<close> is not reached.
\<close>

definition build_simple_loop :: "DocModel \<Rightarrow> exn + bstate" where
  "build_simple_loop m = build_loop simple_page (doc m) (py_range (page_count m)) bstate0"

definition build_structured_loop :: "DocModel \<Rightarrow> exn + bstate" where
  "build_structured_loop m =
     build_loop (struct_page (strip_headers m)) (doc m) (py_range (page_count m)) bstate0"

definition finish_build :: "DocModel \<Rightarrow> bstate \<Rightarrow> DocModel" where
  "finish_build m st =
     m\<lparr>figures := figs st, page_offsets := offs st, merged_text := rstrip (concat (parts st))\<rparr>"

definition build_simple :: "DocModel \<Rightarrow> exn + DocModel" where
  "build_simple m =
     (case build_simple_loop m of Inl e \<Rightarrow> Inl e | Inr st \<Rightarrow> Inr (finish_build m st))"

definition build_structured :: "DocModel \<Rightarrow> exn + DocModel" where
  "build_structured m =
     (case build_structured_loop m of Inl e \<Rightarrow> Inl e | Inr st \<Rightarrow> Inr (finish_build m st))"

text \<open>The builder \<^verbatim>\<open>open\<close> selects: \<^verbatim>\<open>self._build_simple if self.mode=="simple" else self._build_structured\<close>.\<close>

definition build :: "DocModel \<Rightarrow> exn + DocModel" where
  "build m = (if mode m = ''simple'' then build_simple m else build_structured m)"

definition build_loop_of :: "DocModel \<Rightarrow> exn + bstate" where
  "build_loop_of m =
     (if mode m = ''simple'' then build_simple_loop m else build_structured_loop m)"

definition page_step :: "DocModel \<Rightarrow> nat \<Rightarrow> page \<Rightarrow> bstate \<Rightarrow> exn + bstate" where
  "page_step m = (if mode m = ''simple'' then simple_page else struct_page (strip_headers m))"

text \<open>
  \<^verbatim>\<open>open\<close>: the argument is what \<^verbatim>\<open>fitz.open\<close> gives, the pages of the document or an
  exception.
\<close>

definition DocModel_open :: "DocModel \<Rightarrow> exn + page list \<Rightarrow> exn + DocModel" where
  "DocModel_open m opened =
     (case opened of
        Inl e \<Rightarrow> Inl e
      | Inr pgs \<Rightarrow> build (m\<lparr>doc := Some pgs, page_count := int (length pgs)\<rparr>))"

text \<open>
  \<^verbatim>\<open>if self.doc: self.doc.close(); self.doc=None\<close>. A document object is falsy when
  its \<^verbatim>\<open>len\<close> is zero.
\<close>

definition DocModel_close :: "DocModel \<Rightarrow> DocModel" where
  "DocModel_close m =
     (case doc m of
        None \<Rightarrow> m
      | Some pgs \<Rightarrow> if pgs \<noteq> [] then m\<lparr>doc := None\<rparr> else m)"

text \<open>The buffer before the final trim, and page \<open>i\<close>'s share of it.\<close>

definition untrimmed :: "bstate \<Rightarrow> pystr" where
  "untrimmed st = concat (parts st)"

subsection \<open>Rendering\<close>

definition page_key_of :: "DocModel \<Rightarrow> int \<Rightarrow> bool \<Rightarrow> page_key" where
  "page_key_of m pno safe = (pno, dpi m, (if safe then 1 else 0))"

definition str_int :: "int \<Rightarrow> pystr" where
  "str_int i = (if i < 0 then lit ''-'' @ str_nat (nat (- i)) else str_nat (nat i))"

text \<open>The tile of the \<^verbatim>\<open>except\<close> branch, lines 118 to 120.\<close>

definition placeholder :: "int \<Rightarrow> image" where
  "placeholder pno = Tile 320 200 (lit ''Render failed p'' @ str_int (pno + 1))"

text \<open>\<^verbatim>\<open>data=pix.tobytes("png"); img=QImage.fromData(data,"PNG").copy(); self.page_pix_cache.put(key,img); return img\<close>\<close>

definition via_png ::
  "(page_key, image) LRUCache \<Rightarrow> page_key \<Rightarrow> pixmap \<Rightarrow> exn + image \<times> (page_key, image) LRUCache"
where
  "via_png c key pix =
     (case pm_tobytes_png pix of
        Inl e \<Rightarrow> Inl e
      | Inr data \<Rightarrow>
          (case LRUCache_put c key (FromData data) of
             Inl e \<Rightarrow> Inl e
           | Inr c' \<Rightarrow> Inr (FromData data, c')))"

text \<open>\<^verbatim>\<open>img=QImage(pix.samples,pix.width,pix.height,pix.stride,fmt).copy(); self.page_pix_cache.put(key,img); return img\<close>\<close>

definition via_samples ::
  "(page_key, image) LRUCache \<Rightarrow> page_key \<Rightarrow> pixmap \<Rightarrow> qformat \<Rightarrow>
   exn + image \<times> (page_key, image) LRUCache"
where
  "via_samples c key pix fmt =
     (let img = FromSamples (pm_samples pix) (pm_width pix) (pm_height pix) (pm_stride pix) fmt
      in case LRUCache_put c key img of
           Inl e \<Rightarrow> Inl e
         | Inr c' \<Rightarrow> Inr (img, c'))"

text \<open>
  The body of the \<^verbatim>\<open>try\<close>, lines 100 to 116: \<open>Inl\<close> when anything in it raises,
  otherwise the image returned and the cache after the \<open>put\<close>.
\<close>

definition rasterize ::
  "DocModel \<Rightarrow> page \<Rightarrow> page_key \<Rightarrow> bool \<Rightarrow> exn + image \<times> (page_key, image) LRUCache"
where
  "rasterize m pg key safe =
     (let scale = min (max (real_of_int (dpi m) / 72) (1 / 2)) 3
      in case p_get_pixmap pg scale of
           Inl e \<Rightarrow> Inl e
         | Inr pix0 \<Rightarrow>
             (case (if pm_width pix0 > 6000 \<or> pm_height pix0 > 8000 then
                      (let shrink = max (real_of_int (pm_width pix0) / 3000)
                                        (real_of_int (pm_height pix0) / 4000)
                       in p_get_pixmap pg (scale / shrink))
                    else Inr pix0) of
                Inl e \<Rightarrow> Inl e
              | Inr pix \<Rightarrow>
                  if safe then via_png (page_pix_cache m) key pix
                  else if pm_n pix = 1 then via_samples (page_pix_cache m) key pix Format_Grayscale8
                  else if pm_n pix = 3 then via_samples (page_pix_cache m) key pix Format_RGB888
                  else if pm_n pix = 4 then via_samples (page_pix_cache m) key pix Format_RGBA8888
                  else via_png (page_pix_cache m) key pix))"

text \<open>
  \<^verbatim>\<open>render_page\<close>, lines 94 to 120. The result is the value returned (\<open>None\<close> for
  absent) or the exception that leaves the method, together with the model, whose
  cache the call may have changed. \<^verbatim>\<open>page=self.doc[pno]\<close> stands before the
  \<^verbatim>\<open>try\<close>.
\<close>

definition render_page :: "DocModel \<Rightarrow> int \<Rightarrow> bool \<Rightarrow> (exn + image option) \<times> DocModel" where
  "render_page m pno safe =
     (if doc m = None \<or> pno < 0 \<or> pno \<ge> page_count m then (Inr None, m)
      else
        (let key = page_key_of m pno safe
         in case LRUCache_get (page_pix_cache m) key of
              (Some img, c1) \<Rightarrow> (Inr (Some img), m\<lparr>page_pix_cache := c1\<rparr>)
            | (None, c1) \<Rightarrow>
                (let m1 = m\<lparr>page_pix_cache := c1\<rparr>
                 in case doc_getitem (doc m1) (nat pno) of
                      Inl e \<Rightarrow> (Inl e, m1)
                    | Inr pg \<Rightarrow>
                        (case rasterize m1 pg key safe of
                           Inr (img, c2) \<Rightarrow> (Inr (Some img), m1\<lparr>page_pix_cache := c2\<rparr>)
                         | Inl e \<Rightarrow> (Inr (Some (placeholder pno)), m1)))))"

text \<open>What \<^verbatim>\<open>open\<close> establishes and \<^verbatim>\<open>close\<close> keeps: the page count is that of the document.\<close>

definition dm_inv :: "DocModel \<Rightarrow> bool" where
  "dm_inv m = (case doc m of None \<Rightarrow> True | Some pgs \<Rightarrow> page_count m = int (length pgs))"

subsection \<open>Notions the extraction properties are stated with\<close>

text \<open>
  The loop state when page \<open>i\<close> is about to be processed, and page \<open>i\<close>'s contribution:
  the concatenation of the parts its iteration appends.
\<close>

definition state_before :: "DocModel \<Rightarrow> nat \<Rightarrow> exn + bstate" where
  "state_before m i = build_loop (page_step m) (doc m) [0..<i] bstate0"

definition page_contribution :: "DocModel \<Rightarrow> nat \<Rightarrow> pystr option" where
  "page_contribution m i =
     (case state_before m i of
        Inl e \<Rightarrow> None
      | Inr st \<Rightarrow>
          (case doc_getitem (doc m) i of
             Inl e \<Rightarrow> None
           | Inr pg \<Rightarrow>
               (case page_step m i pg st of
                  Inl e \<Rightarrow> None
                | Inr st' \<Rightarrow> Some (concat (drop (length (parts st)) (parts st'))))))"

text \<open>
  The figures a page gives rise to, in the order met: in simple mode one per entry of
  \<^verbatim>\<open>get_images\<close> (none when the call raises), in structured mode one per image block
  (\<^verbatim>\<open>type\<close> 1) whose \<^verbatim>\<open>xref\<close> or \<^verbatim>\<open>image\<close> entry is truthy, with that block's bounding box.
\<close>

definition simple_page_figs :: "nat \<Rightarrow> page \<Rightarrow> figure list" where
  "simple_page_figs pno pg =
     map (\<lambda>x. \<lparr>f_page = pno, f_xref = VInt x, f_bbox = None\<rparr>)
         (case p_images pg of Inl e \<Rightarrow> [] | Inr is \<Rightarrow> is)"

definition is_figure_block :: "block \<Rightarrow> bool" where
  "is_figure_block blk = (b_type blk = Some 1 \<and> truthy (py_or (b_xref blk) (b_image blk)))"

definition struct_page_figs :: "nat \<Rightarrow> page \<Rightarrow> figure list" where
  "struct_page_figs pno pg =
     map (\<lambda>blk. \<lparr>f_page = pno, f_xref = py_or (b_xref blk) (b_image blk),
                 f_bbox = Some (case b_bbox blk of None \<Rightarrow> (0, 0, 0, 0) | Some b \<Rightarrow> b)\<rparr>)
         (filter is_figure_block
            (case p_rawdict pg of Inr (Some bs) \<Rightarrow> bs | _ \<Rightarrow> []))"

definition page_figs :: "DocModel \<Rightarrow> nat \<Rightarrow> page \<Rightarrow> figure list" where
  "page_figs m = (if mode m = ''simple'' then simple_page_figs else struct_page_figs)"

text \<open>All figures of a document, page after page, numbered from 1.\<close>

definition numbered :: "'a list \<Rightarrow> (nat \<times> 'a) list" where
  "numbered xs = zip [1..<Suc (length xs)] xs"

definition all_figs :: "DocModel \<Rightarrow> page list \<Rightarrow> figure list" where
  "all_figs m pgs = concat (map (\<lambda>i. page_figs m i (pgs ! i)) (py_range (page_count m)))"

text \<open>Loop invariants: the counter is the length of the buffer, and the ids are \<open>1..fig_id\<close>.\<close>

definition count_ok :: "bstate \<Rightarrow> bool" where
  "count_ok st = (char_count st = length (concat (parts st)))"

definition figs_ok :: "bstate \<Rightarrow> bool" where
  "figs_ok st = (map fst (figs st) = [1..<Suc (fig_id st)])"

text \<open>One state extends another: parts are appended and counted, offsets are appended.\<close>

definition grows :: "bstate \<Rightarrow> bstate \<Rightarrow> bool" where
  "grows st st' =
     (\<exists>ps. parts st' = parts st @ ps \<and> char_count st' = char_count st + length (concat ps) \<and>
           offs st' = offs st)"

definition step_ok :: "(nat \<Rightarrow> page \<Rightarrow> bstate \<Rightarrow> exn + bstate) \<Rightarrow> bool" where
  "step_ok step =
     (\<forall>pno pg st st'. step pno pg st = Inr st' \<longrightarrow>
        (\<exists>ps. parts st' = parts st @ ps \<and>
              char_count st' = char_count st + length (concat ps) \<and>
              offs st' = offs st @ [(char_count st, char_count st')]))"

text \<open>
  A list of ranges is chained from \<open>a\<close> to \<open>b\<close> when the first starts at \<open>a\<close>, each starts
  where its predecessor ends, none ends before it starts, and the last ends at \<open>b\<close>.
\<close>

fun chained :: "nat \<Rightarrow> (nat \<times> nat) list \<Rightarrow> nat \<Rightarrow> bool" where
  "chained a [] b = (a = b)"
| "chained a ((s, e) # xs) b = (s = a \<and> s \<le> e \<and> chained e xs b)"

text \<open>
  From one state to another the figures \<open>new\<close> were registered: appended in order under
  the next free ids.
\<close>

definition fig_append :: "bstate \<Rightarrow> bstate \<Rightarrow> figure list \<Rightarrow> bool" where
  "fig_append st st' new =
     (figs st' = figs st @ zip [Suc (fig_id st)..<Suc (fig_id st) + length new] new \<and>
      fig_id st' = fig_id st + length new)"

definition block_figure :: "nat \<Rightarrow> block \<Rightarrow> figure" where
  "block_figure pno blk =
     \<lparr>f_page = pno, f_xref = py_or (b_xref blk) (b_image blk),
      f_bbox = Some (case b_bbox blk of None \<Rightarrow> (0, 0, 0, 0) | Some b \<Rightarrow> b)\<rparr>"

section \<open>\<open>PdfView\<close>: the progressive scheduler\<close>

text \<open>
  A page widget: its image (\<open>None\<close> while in text-only mode) and its current height
  on screen, which the layout decides.
\<close>

record PageItem =
  original_img :: "image option"
  item_height :: int

text \<open>
  The view. \<open>timer_active\<close> and \<open>timer_interval\<close> are the state of \<^verbatim>\<open>self._all_timer\<close>;
  \<open>vp_top\<close>, \<open>vp_bot\<close> (the viewport's top and bottom edge in container coordinates)
  and \<open>spacing\<close> are what the presentation layer reports to \<^verbatim>\<open>_visible_range\<close>.
\<close>

record PdfView =
  model :: "DocModel option"
  safe_png :: bool
  render_delay_ms :: int
  page_items :: "PageItem list"
  all_idx :: int
  all_active :: bool
  timer_active :: bool
  timer_interval :: int
  vp_top :: int
  vp_bot :: int
  spacing :: int

text \<open>\<^verbatim>\<open>xs[i]\<close> on a list: a negative index counts from the end.\<close>

definition list_getitem :: "'a list \<Rightarrow> int \<Rightarrow> exn + 'a" where
  "list_getitem xs i =
     (if 0 \<le> i \<and> i < int (length xs) then Inr (xs ! nat i)
      else if i < 0 \<and> - int (length xs) \<le> i then Inr (xs ! nat (int (length xs) + i))
      else Inl IndexError)"

text \<open>\<^verbatim>\<open>PageItem(self,pno)\<close>: no image yet; the height is the layout's.\<close>

definition PageItem_init :: "int \<Rightarrow> PageItem" where
  "PageItem_init h = \<lparr>original_img = None, item_height = h\<rparr>"

text \<open>
  \<^verbatim>\<open>set_model\<close>, lines 219 to 234: a running timer is stopped, the page widgets are
  rebuilt, one per page of the model. \<open>heights\<close> gives the height the layout assigns
  to each new widget.
\<close>

definition set_model :: "PdfView \<Rightarrow> DocModel option \<Rightarrow> (nat \<Rightarrow> int) \<Rightarrow> PdfView" where
  "set_model v mo heights =
     (let v1 = (if timer_active v then v\<lparr>timer_active := False, all_active := False\<rparr> else v)
      in case mo of
           None \<Rightarrow> v1\<lparr>page_items := [], model := None\<rparr>
         | Some m \<Rightarrow>
             v1\<lparr>page_items := map (\<lambda>pno. PageItem_init (heights pno)) (py_range (page_count m)),
                model := Some m\<rparr>)"

text \<open>
  \<^verbatim>\<open>
  def render_single_page_raw(self,pno:int):
      if not self.model: return None
      try: return self.model.render_page(pno, safe_png=self.safe_png)
      except Exception: return None
  \<close>
  The model is shared with the view, so the cache update stays in the view's model.
\<close>

definition render_single_page_raw :: "PdfView \<Rightarrow> int \<Rightarrow> image option \<times> PdfView" where
  "render_single_page_raw v pno =
     (case model v of
        None \<Rightarrow> (None, v)
      | Some m \<Rightarrow>
          (case render_page m pno (safe_png v) of
             (Inr r, m') \<Rightarrow> (r, v\<lparr>model := Some m'\<rparr>)
           | (Inl e, m') \<Rightarrow> (None, v\<lparr>model := Some m'\<rparr>)))"

text \<open>
  The loop of \<^verbatim>\<open>_visible_range\<close>, lines 242 to 245: \<open>i\<close> is the index, \<open>y\<close> the running
  offset, the result the indices collected in \<^verbatim>\<open>rng\<close>.
\<close>

fun visible_loop :: "int \<Rightarrow> int \<Rightarrow> int \<Rightarrow> int \<Rightarrow> int \<Rightarrow> PageItem list \<Rightarrow> int list" where
  "visible_loop tp bt sp i y [] = []"
| "visible_loop tp bt sp i y (item # items) =
     (let h = (if item_height item \<noteq> 0 then item_height item else 120);
          rest = visible_loop tp bt sp (i + 1) (y + h + sp) items
      in if y + h \<ge> tp - 300 \<and> y \<le> bt + 300 then i # rest else rest)"

text \<open>\<^verbatim>\<open>min(rng)\<close> and \<^verbatim>\<open>max(rng)\<close> of a non-empty list.\<close>

definition visible_range :: "PdfView \<Rightarrow> int \<times> int" where
  "visible_range v =
     (if page_items v = [] then (0, - 1)
      else
        (let rng = visible_loop (vp_top v) (vp_bot v) (spacing v) 0 0 (page_items v)
         in case rng of
              [] \<Rightarrow> (0, 0)
            | r # rs \<Rightarrow> (fold min rs r, fold max rs r)))"

text \<open>\<^verbatim>\<open>item.original_img = img\<close> for the item at index \<open>pno \<ge> 0\<close>.\<close>

definition set_original_img :: "PdfView \<Rightarrow> int \<Rightarrow> image option \<Rightarrow> PdfView" where
  "set_original_img v pno img =
     v\<lparr>page_items := (page_items v)[nat pno := (page_items v ! nat pno)\<lparr>original_img := img\<rparr>]\<rparr>"

text \<open>
  The loop of \<^verbatim>\<open>render_visible_lite\<close>, lines 253 to 260, over the remaining page
  numbers, with the counter \<^verbatim>\<open>done\<close>. The first component of the result lists the
  pages handed to \<^verbatim>\<open>render_single_page_raw\<close>, in order.
  \<^verbatim>\<open>
  item=self.page_items[pno]
  if item.original_img is None:
      item.original_img = self.render_single_page_raw(pno)
      if item.original_img: item.update_display()
      done+=1
      if done>=count: break
  \<close>
\<close>

fun visible_lite_loop :: "int list \<Rightarrow> int \<Rightarrow> int \<Rightarrow> PdfView \<Rightarrow> exn + int list \<times> PdfView" where
  "visible_lite_loop [] count dn v = Inr ([], v)"
| "visible_lite_loop (pno # pnos) count dn v =
     (case list_getitem (page_items v) pno of
        Inl e \<Rightarrow> Inl e
      | Inr item \<Rightarrow>
          if original_img item = None then
            (case render_single_page_raw v pno of
               (img, v1) \<Rightarrow>
                 (let v2 = set_original_img v1 pno img
                  in if dn + 1 \<ge> count then Inr ([pno], v2)
                     else (case visible_lite_loop pnos count (dn + 1) v2 of
                             Inl e \<Rightarrow> Inl e
                           | Inr (calls, v3) \<Rightarrow> Inr (pno # calls, v3))))
          else visible_lite_loop pnos count dn v)"

text \<open>\<^verbatim>\<open>render_visible_lite\<close>; \<^verbatim>\<open>range(start, end+1)\<close> is the interval \<open>[start..end]\<close>.\<close>

definition render_visible_lite :: "PdfView \<Rightarrow> int \<Rightarrow> exn + int list \<times> PdfView" where
  "render_visible_lite v count =
     (if model v = None then Inr ([], v)
      else case visible_range v of
             (start, end) \<Rightarrow> visible_lite_loop [start..end] count 0 v)"

text \<open>\<^verbatim>\<open>render_all_pages\<close>, lines 274 to 281 (\<open>startAll\<close>).\<close>

definition render_all_pages :: "PdfView \<Rightarrow> PdfView" where
  "render_all_pages v =
     (if model v = None \<or> all_active v then v
      else v\<lparr>all_idx := 0, all_active := True,
             timer_interval := render_delay_ms v, timer_active := True\<rparr>)"

text \<open>
  \<^verbatim>\<open>_render_all_step\<close>, lines 283 to 296: one timer tick. The first component of the
  result lists the pages handed to \<^verbatim>\<open>render_single_page_raw\<close> during the tick.
\<close>

definition render_all_step :: "PdfView \<Rightarrow> exn + int list \<times> PdfView" where
  "render_all_step v =
     (case model v of
        None \<Rightarrow> Inr ([], v\<lparr>timer_active := False, all_active := False\<rparr>)
      | Some m \<Rightarrow>
          if all_idx v \<ge> page_count m then
            Inr ([], v\<lparr>timer_active := False, all_active := False\<rparr>)
          else
            (let pno = all_idx v
             in case list_getitem (page_items v) pno of
                  Inl e \<Rightarrow> Inl e
                | Inr item \<Rightarrow>
                    if original_img item = None then
                      (case render_single_page_raw v pno of
                         (img, v1) \<Rightarrow>
                           (let v2 = (if img \<noteq> None then set_original_img v1 pno img else v1)
                            in Inr ([pno], v2\<lparr>all_idx := all_idx v2 + 1\<rparr>)))
                    else Inr ([], v\<lparr>all_idx := all_idx v + 1\<rparr>)))"

text \<open>The timer delivers a tick to \<^verbatim>\<open>_render_all_step\<close> only while it is active.\<close>

definition tick :: "PdfView \<Rightarrow> exn + int list \<times> PdfView" where
  "tick v = (if timer_active v then render_all_step v else Inr ([], v))"

text \<open>\<open>n\<close> ticks in a row, with the render calls of all of them.\<close>

fun ticks :: "nat \<Rightarrow> PdfView \<Rightarrow> exn + int list \<times> PdfView" where
  "ticks 0 v = Inr ([], v)"
| "ticks (Suc n) v =
     (case tick v of
        Inl e \<Rightarrow> Inl e
      | Inr (calls, v1) \<Rightarrow>
          (case ticks n v1 of
             Inl e \<Rightarrow> Inl e
           | Inr (calls', v2) \<Rightarrow> Inr (calls @ calls', v2)))"

text \<open>
  A view as \<^verbatim>\<open>set_model\<close> leaves it and the render operations keep it: one widget per
  page of a model whose page count is that of its document.
\<close>

definition view_inv :: "PdfView \<Rightarrow> bool" where
  "view_inv v =
     (case model v of
        None \<Rightarrow> True
      | Some m \<Rightarrow> dm_inv m \<and> 0 \<le> page_count m \<and> int (length (page_items v)) = page_count m)"

section \<open>A small document\<close>

text \<open>
  Two pages for trying the definitions on: the first holds the text \<open>a\<close> and no image,
  the second the text \<open>b\<close>, one embedded image (xref 7), and in its block structure a
  text block with the line \<open>b\<close> followed by an image block. Page 1 renders to a
  three-channel pixmap; rendering page 0 fails.
\<close>

definition ex_pixmap :: pixmap where
  "ex_pixmap = \<lparr>pm_width = 2, pm_height = 1, pm_n = 3, pm_stride = 6,
                pm_samples = [0, 0, 0, 255, 255, 255], pm_tobytes_png = Inr [137, 80, 78, 71]\<rparr>"

definition ex_page0 :: page where
  "ex_page0 = \<lparr>p_text = Inr (Some (lit ''a'')), p_rawdict = Inr None, p_rect_height = 800,
               p_images = Inr [], p_get_pixmap = (\<lambda>s. Inl DecoderError)\<rparr>"

definition ex_page1 :: page where
  "ex_page1 =
     \<lparr>p_text = Inr (Some (lit ''b'')),
      p_rawdict = Inr (Some
        [\<lparr>b_type = Some 0, b_bbox = Some (0, 100, 50, 120), b_lines = Some [Some [Some (lit ''b'')]],
          b_xref = VNone, b_image = VNone\<rparr>,
         \<lparr>b_type = Some 1, b_bbox = Some (0, 200, 50, 300), b_lines = None,
          b_xref = VNone, b_image = VBytes [1, 2, 3]\<rparr>]),
      p_rect_height = 800, p_images = Inr [7], p_get_pixmap = (\<lambda>s. Inr ex_pixmap)\<rparr>"

definition ex_model :: "string \<Rightarrow> DocModel" where
  "ex_model md =
     (DocModel_init 110 md False)\<lparr>doc := Some [ex_page0, ex_page1], page_count := 2\<rparr>"

text \<open>What the simple and the structured build make of it.\<close>

definition ex_simple_built :: DocModel where
  "ex_simple_built =
     (ex_model ''simple'')
       \<lparr>figures := [(1, \<lparr>f_page = 1, f_xref = VInt 7, f_bbox = None\<rparr>)],
        page_offsets := [(0, 3), (3, 23)],
        merged_text := [97, 10, 10, 98, 10, 10, 91, 70, 73, 71, 85, 82, 69, 32, 49, 32, 40,
                        112, 50, 41, 93]\<rparr>"

definition ex_structured_built :: DocModel where
  "ex_structured_built =
     (ex_model ''structured'')
       \<lparr>figures := [(1, \<lparr>f_page = 1, f_xref = VBytes [1, 2, 3],
                         f_bbox = Some (0, 200, 50, 300)\<rparr>)],
        page_offsets := [(0, 3), (3, 23)],
        merged_text := [97, 10, 10, 98, 10, 10, 91, 70, 73, 71, 85, 82, 69, 32, 49, 32, 40,
                        112, 50, 41, 93]\<rparr>"

section \<open>A small view\<close>

text \<open>
  A view onto the two-page document, as \<^verbatim>\<open>set_model\<close> leaves it (both widgets 64 high,
  both within the viewport), and the same view when its model has been closed: what
  \<^verbatim>\<open>load_pdf\<close> leaves behind when it has closed the old model and opening the new file
  fails.
\<close>

definition ex_view0 :: PdfView where
  "ex_view0 = \<lparr>model = None, safe_png = True, render_delay_ms = 100, page_items = [],
               all_idx = 0, all_active = False, timer_active = False, timer_interval = 0,
               vp_top = 0, vp_bot = 600, spacing = 12\<rparr>"

definition ex_view :: PdfView where
  "ex_view = set_model ex_view0 (Some (ex_model ''simple'')) (\<lambda>pno. 64)"

definition ex_view_closed :: PdfView where
  "ex_view_closed = ex_view\<lparr>model := Some (DocModel_close (ex_model ''simple''))\<rparr>"

text \<open>What can be observed of a run of ticks and of \<^verbatim>\<open>render_visible_lite\<close>.\<close>

definition scheduler_state :: "exn + int list \<times> PdfView \<Rightarrow> (int list \<times> int \<times> bool \<times> bool) option" where
  "scheduler_state r =
     (case r of
        Inl e \<Rightarrow> None
      | Inr (calls, v) \<Rightarrow> Some (calls, all_idx v, all_active v, timer_active v))"

definition rendered_state :: "exn + int list \<times> PdfView \<Rightarrow> (int list \<times> image option list) option" where
  "rendered_state r =
     (case r of
        Inl e \<Rightarrow> None
      | Inr (calls, v) \<Rightarrow> Some (calls, map original_img (page_items v)))"

text \<open>The pages of a list of page numbers that have no image in view \<open>v\<close>.\<close>

definition unrendered :: "PdfView \<Rightarrow> int list \<Rightarrow> int list" where
  "unrendered v pnos = filter (\<lambda>p. original_img (page_items v ! nat p) = None) pnos"

text \<open>
  Two views differ at most in the cache of their model and in the widgets at the
  listed page numbers.
\<close>

definition same_except :: "PdfView \<Rightarrow> PdfView \<Rightarrow> int list \<Rightarrow> bool" where
  "same_except v v' pnos =
     (length (page_items v') = length (page_items v) \<and>
      (\<forall>j < length (page_items v). int j \<notin> set pnos \<longrightarrow> page_items v' ! j = page_items v ! j) \<and>
      (case model v of
         None \<Rightarrow> model v' = None
       | Some m \<Rightarrow> (\<exists>c. model v' = Some (m\<lparr>page_pix_cache := c\<rparr>))))"

text \<open>
  The scheduler is Running over a model of \<open>P\<close> pages: timer armed, active flag set, one
  widget per page.
\<close>

definition running :: "PdfView \<Rightarrow> nat \<Rightarrow> bool" where
  "running v P =
     (timer_active v \<and> all_active v \<and> length (page_items v) = P \<and>
      (\<exists>m. model v = Some m \<and> dm_inv m \<and> page_count m = int P))"

section \<open>Properties of the cache\<close>

lemma evict_lastN: "0 \<le> mx \<Longrightarrow> evict mx d = Inr (lastN (nat mx) d)"
proof (induction d)
  case Nil
  then show ?case by (simp add: evict.simps lastN_def)
next
  case (Cons x xs)
  show ?case
  proof (cases "int (length (x # xs)) > mx")
    case True
    then have "evict mx (x # xs) = evict mx xs"
      by (subst evict.simps) (simp add: od_popitem_first_def)
    moreover from True Cons.prems have "lastN (nat mx) (x # xs) = lastN (nat mx) xs"
      by (simp add: lastN_def Suc_diff_le nat_le_iff)
    ultimately show ?thesis using Cons by simp
  next
    case False
    then show ?thesis by (subst evict.simps) (simp add: lastN_def)
  qed
qed

lemma evict_neg: "mx < 0 \<Longrightarrow> evict mx d = Inl KeyError"
  by (induction d) (subst evict.simps, simp add: od_popitem_first_def)+

lemma setitem_fresh: "k \<notin> fst ` set d \<Longrightarrow> od_setitem d k v = d @ [(k, v)]"
  by (induction d) (auto simp: od_setitem_def)

lemma od_contains_iff: "od_contains d k \<longleftrightarrow> k \<in> fst ` set d"
  by (simp add: od_contains_def map_of_eq_None_iff)

lemma put_lastN:
  assumes "0 \<le> lru_max c"
  shows "LRUCache_put c k v =
         Inr (c\<lparr>lru_d := lastN (nat (lru_max c)) (AList.delete k (lru_d c) @ [(k, v)])\<rparr>)"
proof -
  have d1: "(if od_contains (lru_d c) k then AList.delete k (lru_d c) else lru_d c)
            = AList.delete k (lru_d c)"
    by (simp add: od_contains_iff)
  have "od_setitem (AList.delete k (lru_d c)) k v = AList.delete k (lru_d c) @ [(k, v)]"
    by (rule setitem_fresh) (simp add: delete_notin_dom)
  with d1 assms show ?thesis
    by (simp add: LRUCache_put_def evict_lastN)
qed

lemma get_hit:
  assumes "map_of (lru_d c) k = Some v"
  shows "LRUCache_get c k = (Some v, c\<lparr>lru_d := AList.delete k (lru_d c) @ [(k, v)]\<rparr>)"
proof -
  have "od_setitem (AList.delete k (lru_d c)) k v = AList.delete k (lru_d c) @ [(k, v)]"
    by (rule setitem_fresh) (simp add: delete_notin_dom)
  with assms show ?thesis
    by (simp add: LRUCache_get_def od_contains_def od_pop_def)
qed

lemma get_miss: "map_of (lru_d c) k = None \<Longrightarrow> LRUCache_get c k = (None, c)"
  by (simp add: LRUCache_get_def od_contains_def)

lemma length_lastN: "length (lastN n xs) = min n (length xs)"
  by (auto simp: lastN_def)

lemma lastN_append_short: "length ys \<le> n \<Longrightarrow> lastN n (xs @ ys) = lastN (n - length ys) xs @ ys"
  by (auto simp: lastN_def)

lemma lastN_all: "length xs \<le> n \<Longrightarrow> lastN n xs = xs"
  by (simp add: lastN_def)

lemma suffix_lastN: "suffix (lastN n xs) xs"
  by (simp add: lastN_def suffix_drop)

lemma suffix_lastN_keep:
  assumes "suffix s xs" "length s \<le> n"
  shows "suffix s (lastN n xs)"
proof -
  from assms(1) obtain p where "xs = p @ s" by (auto simp: suffix_def)
  with assms(2) show ?thesis by (simp add: lastN_append_short suffix_def)
qed

lemma suffix_delete:
  assumes "suffix s d" "k \<notin> fst ` set s"
  shows "suffix s (AList.delete k d)"
proof -
  from assms(1) obtain p where "d = p @ s" by (auto simp: suffix_def)
  moreover have "AList.delete k s = s" using assms(2) by simp
  ultimately show ?thesis by (simp add: AList.delete_eq suffix_def)
qed


lemma lastN_lastN_append: "lastN n (lastN n xs @ ys) = lastN n (xs @ ys)"
  by (cases "n \<le> length xs") (auto simp: lastN_def add.commute)

lemma set_lastN_subset: "set (lastN n xs) \<subseteq> set xs"
  by (simp add: lastN_def set_drop_subset)

lemma put_all_suffix:
  assumes "0 \<le> lru_max c" "suffix s (lru_d c)" "distinct (map fst (s @ kvs))"
  shows "\<exists>c'. put_all c kvs = Inr c' \<and> lru_max c' = lru_max c \<and>
              suffix (lastN (nat (lru_max c)) (s @ kvs)) (lru_d c') \<and>
              (kvs \<noteq> [] \<longrightarrow> int (length (lru_d c')) \<le> lru_max c)"
  using assms
proof (induction kvs arbitrary: c s)
  case Nil
  have "suffix (lastN (nat (lru_max c)) s) s" by (rule suffix_lastN)
  with Nil.prems(2) have "suffix (lastN (nat (lru_max c)) s) (lru_d c)"
    by (meson suffix_order.trans)
  then show ?case by simp
next
  case (Cons kv kvs)
  obtain k v where kv: "kv = (k, v)" by (cases kv)
  let ?N = "nat (lru_max c)"
  let ?d1 = "lastN ?N (AList.delete k (lru_d c) @ [(k, v)])"
  let ?c1 = "c\<lparr>lru_d := ?d1\<rparr>"
  let ?s1 = "lastN ?N (s @ [(k, v)])"
  have put: "LRUCache_put c k v = Inr ?c1"
    using Cons.prems(1) by (rule put_lastN)
  have knot: "k \<notin> fst ` set s"
    using Cons.prems(3) kv by auto
  have "suffix s (AList.delete k (lru_d c))"
    using Cons.prems(2) knot by (rule suffix_delete)
  then have "suffix (s @ [(k, v)]) (AList.delete k (lru_d c) @ [(k, v)])"
    by simp
  then have "suffix ?s1 (AList.delete k (lru_d c) @ [(k, v)])"
    using suffix_lastN suffix_order.trans by blast
  then have suf1: "suffix ?s1 (lru_d ?c1)"
    by (simp add: suffix_lastN_keep length_lastN)
  have "set ?s1 \<subseteq> set (s @ [(k, v)])" by (rule set_lastN_subset)
  moreover have "distinct (map fst ?s1)"
  proof -
    have "distinct (map fst (s @ [(k, v)]))"
      using Cons.prems(3) kv by auto
    then have "distinct (drop (length (s @ [(k, v)]) - ?N) (map fst (s @ [(k, v)])))"
      by (rule distinct_drop)
    then show ?thesis by (simp only: lastN_def drop_map)
  qed
  ultimately have dist1: "distinct (map fst (?s1 @ kvs))"
  proof -
    assume sub: "set ?s1 \<subseteq> set (s @ [(k, v)])" and d1: "distinct (map fst ?s1)"
    have "fst ` set ?s1 \<subseteq> fst ` set (s @ [(k, v)])"
      using sub by (rule image_mono)
    moreover have "fst ` set (s @ [(k, v)]) \<inter> fst ` set kvs = {}"
      using Cons.prems(3) kv by auto
    ultimately have "fst ` set ?s1 \<inter> fst ` set kvs = {}" by blast
    moreover have "distinct (map fst kvs)" using Cons.prems(3) by simp
    ultimately show ?thesis using d1 by simp
  qed
  have mx1: "0 \<le> lru_max ?c1" using Cons.prems(1) by simp
  from Cons.IH [OF mx1 suf1 dist1]
  obtain c' where c': "put_all ?c1 kvs = Inr c'" "lru_max c' = lru_max c"
      "suffix (lastN ?N (?s1 @ kvs)) (lru_d c')"
      "kvs \<noteq> [] \<longrightarrow> int (length (lru_d c')) \<le> lru_max c"
    by auto
  have len: "int (length (lru_d c')) \<le> lru_max c"
  proof (cases kvs)
    case Nil
    with c'(1) have "c' = ?c1" by simp
    then show ?thesis using Cons.prems(1) by (simp add: length_lastN)
  next
    case (Cons a list)
    with c'(4) show ?thesis by simp
  qed
  have "lastN ?N (?s1 @ kvs) = lastN ?N (s @ kv # kvs)"
    by (simp add: lastN_lastN_append kv)
  with c' put len show ?case by (simp add: kv)
qed


lemma length_delete_less: "k \<in> fst ` set d \<Longrightarrow> length (AList.delete k d) < length d"
proof (induction d)
  case Nil
  then show ?case by simp
next
  case (Cons p d)
  have "length (AList.delete k d) \<le> length d" by (rule length_delete_le)
  show ?case
  proof (cases "fst p = k")
    case True
    then have "AList.delete k (p # d) = AList.delete k d" by (cases p) simp
    with \<open>length (AList.delete k d) \<le> length d\<close> show ?thesis by simp
  next
    case False
    then have "AList.delete k (p # d) = p # AList.delete k d" by (cases p) auto
    moreover from False Cons.prems have "k \<in> fst ` set d" by auto
    ultimately show ?thesis using Cons.IH by simp
  qed
qed

lemma get_preserves:
  "lru_max (snd (LRUCache_get c k)) = lru_max c \<and>
   length (lru_d (snd (LRUCache_get c k))) \<le> length (lru_d c)"
proof (cases "map_of (lru_d c) k")
  case None
  then show ?thesis by (simp add: get_miss)
next
  case (Some v)
  then have "(k, v) \<in> set (lru_d c)" by (rule map_of_SomeD)
  then have "k \<in> fst ` set (lru_d c)" by force
  then have "length (AList.delete k (lru_d c)) < length (lru_d c)"
    by (rule length_delete_less)
  with Some show ?thesis by (simp add: get_hit)
qed

lemma run_ops_bounded:
  assumes "0 \<le> lru_max c" "int (length (lru_d c)) \<le> lru_max c"
  shows "\<exists>c'. run_ops c ops = Inr c' \<and> lru_max c' = lru_max c \<and>
              int (length (lru_d c')) \<le> lru_max c"
  using assms
proof (induction ops arbitrary: c)
  case Nil
  then show ?case by simp
next
  case (Cons opn ops)
  show ?case
  proof (cases opn)
    case (Get k)
    let ?c1 = "snd (LRUCache_get c k)"
    have "0 \<le> lru_max ?c1" "int (length (lru_d ?c1)) \<le> lru_max ?c1"
      using Cons.prems get_preserves [of c k] by auto
    from Cons.IH [OF this] show ?thesis
      using Get get_preserves [of c k] by simp
  next
    case (Put k v)
    let ?c1 = "c\<lparr>lru_d := lastN (nat (lru_max c)) (AList.delete k (lru_d c) @ [(k, v)])\<rparr>"
    have put: "LRUCache_put c k v = Inr ?c1"
      using Cons.prems(1) by (rule put_lastN)
    have "0 \<le> lru_max ?c1" "int (length (lru_d ?c1)) \<le> lru_max ?c1"
      using Cons.prems(1) by (simp_all add: length_lastN)
    from Cons.IH [OF this] show ?thesis
      using Put put by simp
  qed
qed

lemma suffix_same_length: "suffix xs ys \<Longrightarrow> length ys \<le> length xs \<Longrightarrow> ys = xs"
  by (auto simp: suffix_def)

text \<open>
  Claim C4. Starting from a freshly constructed cache of capacity \<open>N \<ge> 0\<close>, no sequence
  of \<open>get\<close>/\<open>put\<close> operations raises, and the cache holds at most \<open>N\<close> entries
  afterwards. Putting \<open>N + k\<close> entries with pairwise distinct keys (\<open>k \<ge> 1\<close>) into
  such a cache leaves exactly the last \<open>N\<close> of them, in insertion order: \<open>get\<close> on
  each of the \<open>k\<close> earliest keys is a miss that leaves the cache as it is, and
  \<open>get\<close> on each of the remaining \<open>N\<close> keys returns the value put under it.
\<close>

theorem LRUCache_capacity_and_eviction:
  assumes "0 \<le> N"
  shows "\<exists>c0. run_ops (LRUCache_init N) ops = Inr c0 \<and> int (length (lru_d c0)) \<le> N \<and>
           (distinct (map fst kvs) \<and> int (length kvs) = N + int k \<and> 1 \<le> k \<longrightarrow>
              (\<exists>c'. put_all c0 kvs = Inr c' \<and> lru_d c' = drop k kvs \<and>
                 (\<forall>i<k. LRUCache_get c' (fst (kvs ! i)) = (None, c')) \<and>
                 (\<forall>i. k \<le> i \<and> i < length kvs \<longrightarrow>
                    fst (LRUCache_get c' (fst (kvs ! i))) = Some (snd (kvs ! i)))))"
proof -
  have init: "0 \<le> lru_max (LRUCache_init N :: ('a, 'b) LRUCache)"
       "int (length (lru_d (LRUCache_init N :: ('a, 'b) LRUCache))) \<le> lru_max (LRUCache_init N :: ('a, 'b) LRUCache)"
    using assms by (simp_all add: LRUCache_init_def)
  from run_ops_bounded [OF init, of ops]
  obtain c0 where c0: "run_ops (LRUCache_init N) ops = Inr c0" "lru_max c0 = N"
      "int (length (lru_d c0)) \<le> N"
    by (auto simp: LRUCache_init_def)
  have second: "\<exists>c'. put_all c0 kvs = Inr c' \<and> lru_d c' = drop k kvs \<and>
                 (\<forall>i<k. LRUCache_get c' (fst (kvs ! i)) = (None, c')) \<and>
                 (\<forall>i. k \<le> i \<and> i < length kvs \<longrightarrow>
                    fst (LRUCache_get c' (fst (kvs ! i))) = Some (snd (kvs ! i)))"
    if dist: "distinct (map fst kvs)" and len: "int (length kvs) = N + int k" and k1: "1 \<le> k"
  proof -
    have ne: "kvs \<noteq> []" using len k1 assms by auto
    have "0 \<le> lru_max c0" using c0(2) assms by simp
    moreover have "suffix [] (lru_d c0)" by simp
    moreover have "distinct (map fst ([] @ kvs))" using dist by simp
    ultimately obtain c' where c': "put_all c0 kvs = Inr c'"
        "suffix (lastN (nat (lru_max c0)) ([] @ kvs)) (lru_d c')"
        "int (length (lru_d c')) \<le> lru_max c0"
      using put_all_suffix [of c0 "[]" kvs] ne by blast
    have lk: "length kvs = nat N + k" using len assms by linarith
    then have last: "lastN (nat N) kvs = drop k kvs" by (simp add: lastN_def)
    have "length (lru_d c') \<le> length (drop k kvs)"
      using c'(3) c0(2) lk assms by simp
    with c'(2) have d: "lru_d c' = drop k kvs"
      using last c0(2) by (simp add: suffix_same_length)
    have dk: "distinct (map fst (drop k kvs))"
      using distinct_drop [OF dist, of k] by (simp only: drop_map)
    have absent: "LRUCache_get c' (fst (kvs ! i)) = (None, c')" if "i < k" for i
    proof -
      have "fst (kvs ! i) \<notin> fst ` set (drop k kvs)"
      proof
        assume "fst (kvs ! i) \<in> fst ` set (drop k kvs)"
        then obtain j where j: "j < length (drop k kvs)" "fst (drop k kvs ! j) = fst (kvs ! i)"
          by (auto simp: in_set_conv_nth)
        then have eq: "map fst kvs ! (k + j) = map fst kvs ! i"
          and lt: "k + j < length (map fst kvs)" "i < length (map fst kvs)"
          using lk that by auto
        from nth_eq_iff_index_eq [OF dist lt] eq have "k + j = i"
          by simp
        with that show False by simp
      qed
      then have "map_of (lru_d c') (fst (kvs ! i)) = None"
        by (simp add: d map_of_eq_None_iff)
      then show ?thesis by (rule get_miss)
    qed
    have present: "fst (LRUCache_get c' (fst (kvs ! i))) = Some (snd (kvs ! i))"
      if "k \<le> i" "i < length kvs" for i
    proof -
      have "drop k kvs ! (i - k) = kvs ! i" "i - k < length (drop k kvs)"
        using that by simp_all
      then have "kvs ! i \<in> set (drop k kvs)"
        by (metis nth_mem)
      then have "map_of (lru_d c') (fst (kvs ! i)) = Some (snd (kvs ! i))"
        using dk by (simp add: d)
      then show ?thesis by (simp add: get_hit)
    qed
    from c'(1) d absent present show ?thesis by blast
  qed
  from c0 second show ?thesis by blast
qed

theorem LRUCache_capacity_and_eviction_witness:
  "\<exists>c0 c'. run_ops (LRUCache_init 2) [Put (11::nat) (10::nat), Get 11, Put 15 50, Put 16 60] = Inr c0 \<and>
        int (length (lru_d c0)) \<le> 2 \<and>
        put_all c0 [(11, 71), (12, 72), (13, 73)] = Inr c' \<and>
        lru_d c' = [(12, 72), (13, 73)] \<and>
        LRUCache_get c' 11 = (None, c') \<and>
        fst (LRUCache_get c' 12) = Some 72 \<and>
        fst (LRUCache_get c' 13) = Some 73"
proof -
  let ?kvs = "[(11::nat, 71::nat), (12, 72), (13, 73)]"
  have n: "(0::int) \<le> 2" by simp
  have h: "distinct (map fst ?kvs) \<and> int (length ?kvs) = 2 + int 1 \<and> (1::nat) \<le> 1"
    by simp
  from LRUCache_capacity_and_eviction
         [OF n, of "[Put (11::nat) (10::nat), Get 11, Put 15 50, Put 16 60]" ?kvs 1] h
  obtain c0 c' where
    c0: "run_ops (LRUCache_init 2) [Put (11::nat) (10::nat), Get 11, Put 15 50, Put 16 60] = Inr c0"
        "int (length (lru_d c0)) \<le> 2"
    and c': "put_all c0 ?kvs = Inr c'" "lru_d c' = drop 1 ?kvs"
    and A: "\<forall>i<1. LRUCache_get c' (fst (?kvs ! i)) = (None, c')"
    and B: "\<forall>i. 1 \<le> i \<and> i < length ?kvs \<longrightarrow>
             fst (LRUCache_get c' (fst (?kvs ! i))) = Some (snd (?kvs ! i))"
    by blast
  from c'(2) have d: "lru_d c' = [(12, 72), (13, 73)]" by simp
  from A have "LRUCache_get c' (fst (?kvs ! 0)) = (None, c')" by blast
  then have a: "LRUCache_get c' 11 = (None, c')" by simp
  have "1 \<le> (1::nat) \<and> 1 < length ?kvs" by simp
  with B have "fst (LRUCache_get c' (fst (?kvs ! 1))) = Some (snd (?kvs ! 1))" by blast
  then have b: "fst (LRUCache_get c' 12) = Some 72" by simp
  have "1 \<le> (2::nat) \<and> 2 < length ?kvs" by simp
  with B have "fst (LRUCache_get c' (fst (?kvs ! 2))) = Some (snd (?kvs ! 2))" by blast
  then have c: "fst (LRUCache_get c' 13) = Some 73" by simp
  from c0 c'(1) d a b c show ?thesis by blast
qed

text \<open>A constructor argument below zero is not a capacity: the first \<open>put\<close> raises.\<close>

lemma LRUCache_negative_max_raises:
  "lru_max c < 0 \<Longrightarrow> LRUCache_put c k v = Inl KeyError"
  by (simp add: LRUCache_put_def evict_neg)

lemma map_of_mid:
  "K \<notin> fst ` set pre \<Longrightarrow> map_of (pre @ (K, v) # post) K = Some v"
  by (induction pre) auto

lemma put_keeps:
  assumes mx: "0 \<le> lru_max c"
    and d: "lru_d c = pre @ (K, v) # post"
    and pre: "K \<notin> fst ` set pre"
    and ne: "k \<noteq> K"
    and room: "int (length post) + 2 \<le> lru_max c"
  shows "\<exists>c' pre' post'. LRUCache_put c k w = Inr c' \<and> lru_max c' = lru_max c \<and>
           lru_d c' = pre' @ (K, v) # post' \<and> K \<notin> fst ` set pre' \<and>
           length post' \<le> length post + 1"
proof -
  let ?N = "nat (lru_max c)"
  let ?tl = "(K, v) # AList.delete k post @ [(k, w)]"
  have del: "AList.delete k (lru_d c) = AList.delete k pre @ (K, v) # AList.delete k post"
    using d ne by (simp add: AList.delete_eq)
  have lp: "length (AList.delete k post) \<le> length post" by (rule length_delete_le)
  then have short: "length ?tl \<le> ?N" using room by simp
  have "lastN ?N (AList.delete k (lru_d c) @ [(k, w)]) = lastN ?N (AList.delete k pre @ ?tl)"
    by (simp add: del)
  also have "\<dots> = lastN (?N - length ?tl) (AList.delete k pre) @ ?tl"
    using short by (rule lastN_append_short)
  finally have dd: "lastN ?N (AList.delete k (lru_d c) @ [(k, w)]) =
      lastN (?N - length ?tl) (AList.delete k pre) @ (K, v) # (AList.delete k post @ [(k, w)])"
    by simp
  have "set (lastN (?N - length ?tl) (AList.delete k pre)) \<subseteq> set (AList.delete k pre)"
    by (rule set_lastN_subset)
  moreover have "fst ` set (AList.delete k pre) \<subseteq> fst ` set pre"
    by (rule dom_delete_subset)
  ultimately have "K \<notin> fst ` set (lastN (?N - length ?tl) (AList.delete k pre))"
    using pre by blast
  moreover have "length (AList.delete k post @ [(k, w)]) \<le> length post + 1"
    using lp by simp
  ultimately have "lru_d (c\<lparr>lru_d := lastN ?N (AList.delete k (lru_d c) @ [(k, w)])\<rparr>) =
        lastN (?N - length ?tl) (AList.delete k pre) @ (K, v) # (AList.delete k post @ [(k, w)]) \<and>
      K \<notin> fst ` set (lastN (?N - length ?tl) (AList.delete k pre)) \<and>
      length (AList.delete k post @ [(k, w)]) \<le> length post + 1"
    using dd by simp
  then have "\<exists>pre' post'. lru_d (c\<lparr>lru_d := lastN ?N (AList.delete k (lru_d c) @ [(k, w)])\<rparr>) =
        pre' @ (K, v) # post' \<and> K \<notin> fst ` set pre' \<and> length post' \<le> length post + 1"
    by blast
  then show ?thesis
    using put_lastN [OF mx, of k w] by simp
qed

lemma put_all_keeps:
  assumes "0 \<le> lru_max c" "lru_d c = pre @ (K, v) # post" "K \<notin> fst ` set pre"
    "K \<notin> fst ` set kvs" "int (length post) + int (length kvs) + 1 \<le> lru_max c"
  shows "\<exists>c' pre' post'. put_all c kvs = Inr c' \<and> lru_max c' = lru_max c \<and>
           lru_d c' = pre' @ (K, v) # post' \<and> K \<notin> fst ` set pre'"
  using assms
proof (induction kvs arbitrary: c pre post)
  case Nil
  then show ?case by auto
next
  case (Cons kw kvs)
  obtain k w where kw: "kw = (k, w)" by (cases kw)
  have ne: "k \<noteq> K" using Cons.prems(4) kw by auto
  have room: "int (length post) + 2 \<le> lru_max c" using Cons.prems(5) by simp
  from put_keeps [OF Cons.prems(1,2,3) ne room, of w]
  obtain c1 pre1 post1 where c1: "LRUCache_put c k w = Inr c1" "lru_max c1 = lru_max c"
      "lru_d c1 = pre1 @ (K, v) # post1" "K \<notin> fst ` set pre1"
      "length post1 \<le> length post + 1"
    by blast
  have a: "0 \<le> lru_max c1" using c1(2) Cons.prems(1) by simp
  have b: "K \<notin> fst ` set kvs" using Cons.prems(4) by simp
  have r: "int (length post1) + int (length kvs) + 1 \<le> lru_max c1"
    using c1(2,5) Cons.prems(5) by simp
  from Cons.IH [OF a c1(3,4) b r] c1(1,2) show ?case by (simp add: kw)
qed

text \<open>
  Claim C8. Let the cache hold key \<open>K\<close> (with image \<open>v\<close>) and let its capacity be
  \<open>N\<close>. After \<open>get(K)\<close>, which is a hit returning \<open>v\<close>, putting up to \<open>N - 1\<close>
  entries under keys other than \<open>K\<close> raises nothing and leaves \<open>K\<close> in the cache:
  \<open>get(K)\<close> still returns \<open>v\<close>. A \<open>get\<close> on a key that is not in the cache returns
  absent and leaves the cache, contents and order, as it was.
\<close>

theorem LRUCache_hit_protects:
  "(map_of (lru_d c) K = Some v \<and> K \<notin> fst ` set kvs \<and> int (length kvs) \<le> lru_max c - 1 \<longrightarrow>
      fst (LRUCache_get c K) = Some v \<and>
      (\<exists>c'. put_all (snd (LRUCache_get c K)) kvs = Inr c' \<and>
            fst (LRUCache_get c' K) = Some v)) \<and>
   (K' \<notin> fst ` set (lru_d c) \<longrightarrow> LRUCache_get c K' = (None, c))"
proof (intro conjI impI)
  assume h: "map_of (lru_d c) K = Some v \<and> K \<notin> fst ` set kvs \<and>
             int (length kvs) \<le> lru_max c - 1"
  let ?c1 = "c\<lparr>lru_d := AList.delete K (lru_d c) @ [(K, v)]\<rparr>"
  have g: "LRUCache_get c K = (Some v, ?c1)" using h by (simp add: get_hit)
  then show "fst (LRUCache_get c K) = Some v" by simp
  have "\<exists>c' pre' post'. put_all ?c1 kvs = Inr c' \<and> lru_max c' = lru_max ?c1 \<and>
           lru_d c' = pre' @ (K, v) # post' \<and> K \<notin> fst ` set pre'"
  proof (rule put_all_keeps [where post = "[]"])
    show "0 \<le> lru_max ?c1" using h by simp
    show "lru_d ?c1 = AList.delete K (lru_d c) @ [(K, v)]" by simp
    show "K \<notin> fst ` set (AList.delete K (lru_d c))" by (rule delete_notin_dom)
    show "K \<notin> fst ` set kvs" using h by simp
    show "int (length []) + int (length kvs) + 1 \<le> lru_max ?c1" using h by simp
  qed
  then obtain c' pre' post' where c': "put_all ?c1 kvs = Inr c'"
      "lru_d c' = pre' @ (K, v) # post'" "K \<notin> fst ` set pre'"
    by blast
  from c'(3) have "map_of (pre' @ (K, v) # post') K = Some v" by (rule map_of_mid)
  with c'(2) have "map_of (lru_d c') K = Some v" by (simp only:)
  then have "fst (LRUCache_get c' K) = Some v" by (simp add: get_hit)
  with c'(1) g show "\<exists>c'. put_all (snd (LRUCache_get c K)) kvs = Inr c' \<and>
            fst (LRUCache_get c' K) = Some v"
    by simp
next
  assume "K' \<notin> fst ` set (lru_d c)"
  then have "map_of (lru_d c) K' = None" by (simp add: map_of_eq_None_iff)
  then show "LRUCache_get c K' = (None, c)" by (rule get_miss)
qed

theorem LRUCache_hit_protects_witness:
  "fst (LRUCache_get \<lparr>lru_max = 3, lru_d = [(1::nat, 10::nat), (2, 20), (3, 30)]\<rparr> 1) = Some 10 \<and>
   (\<exists>c'. put_all (snd (LRUCache_get \<lparr>lru_max = 3, lru_d = [(1::nat, 10::nat), (2, 20), (3, 30)]\<rparr> 1))
               [(4, 40), (5, 50)] = Inr c' \<and>
         fst (LRUCache_get c' 1) = Some 10) \<and>
   LRUCache_get \<lparr>lru_max = 3, lru_d = [(1::nat, 10::nat), (2, 20), (3, 30)]\<rparr> 7 =
     (None, \<lparr>lru_max = 3, lru_d = [(1, 10), (2, 20), (3, 30)]\<rparr>)"
proof -
  let ?c = "\<lparr>lru_max = 3, lru_d = [(1::nat, 10::nat), (2, 20), (3, 30)]\<rparr>"
  have h1: "map_of (lru_d ?c) 1 = Some 10 \<and> 1 \<notin> fst ` set [(4::nat, 40::nat), (5, 50)] \<and>
            int (length [(4::nat, 40::nat), (5, 50)]) \<le> lru_max ?c - 1"
    by simp
  have h2: "7 \<notin> fst ` set (lru_d ?c)" by simp
  from LRUCache_hit_protects [of ?c 1 10 "[(4, 40), (5, 50)]" 7] h1 h2
  show ?thesis by blast
qed

section \<open>The small document, evaluated\<close>

lemmas ex_eval =
  build_simple_loop_def build_structured_loop_def ex_model_def DocModel_init_def py_range_def
  doc_getitem_def simple_page_def struct_page_def ex_page0_def ex_page1_def
  emit_plain_text_def strip_def lstrip_def rstrip_def isspace_def lit_def emit_def NL_def
  marker_def str_nat.simps bstate0_def od_setitem_def Let_def struct_block_def line_text_def
  py_or_def upt_rec

lemma ex_simple_loop:
  "build_simple_loop (ex_model ''simple'') =
   Inr \<lparr>parts = [[97], [10, 10], [98], [10, 10],
         [91, 70, 73, 71, 85, 82, 69, 32, 49, 32, 40, 112, 50, 41, 93], [10, 10]],
        char_count = 23, fig_id = 1,
        figs = [(1, \<lparr>f_page = 1, f_xref = VInt 7, f_bbox = None\<rparr>)],
        offs = [(0, 3), (3, 23)]\<rparr>"
  by (simp add: ex_eval)

lemma ex_struct_loop:
  "build_structured_loop (ex_model ''structured'') =
   Inr \<lparr>parts = [[97], [10, 10], [98], [10], [10],
         [91, 70, 73, 71, 85, 82, 69, 32, 49, 32, 40, 112, 50, 41, 93], [10, 10]],
        char_count = 23, fig_id = 1,
        figs = [(1, \<lparr>f_page = 1, f_xref = VBytes [1, 2, 3], f_bbox = Some (0, 200, 50, 300)\<rparr>)],
        offs = [(0, 3), (3, 23)]\<rparr>"
  by (simp add: ex_eval)

lemma ex_rstrip:
  "rstrip [97, 10, 10, 98, 10, 10, 91, 70, 73, 71, 85, 82, 69, 32, 49, 32, 40, 112, 50, 41, 93,
           10, 10] =
   [97, 10, 10, 98, 10, 10, 91, 70, 73, 71, 85, 82, 69, 32, 49, 32, 40, 112, 50, 41, 93]"
  by (simp add: rstrip_def isspace_def)

lemma ex_mode: "mode (ex_model md) = md"
  by (simp add: ex_model_def DocModel_init_def)

lemma ex_build_simple: "build (ex_model ''simple'') = Inr ex_simple_built"
  by (simp add: build_def build_simple_def ex_simple_loop finish_build_def ex_mode ex_rstrip
                ex_simple_built_def)

lemma ex_build_structured: "build (ex_model ''structured'') = Inr ex_structured_built"
  by (simp add: build_def build_structured_def ex_struct_loop finish_build_def ex_mode ex_rstrip
                ex_structured_built_def)

section \<open>Properties of the extractor\<close>

lemma grows_refl: "grows st st"
  by (simp add: grows_def)

lemma grows_trans: "grows a b \<Longrightarrow> grows b c \<Longrightarrow> grows a c"
  by (auto simp: grows_def)

lemma length_NL2: "length (NL @ NL) = 2"
  by (simp add: NL_def)

lemma grows_emit: "length sep = n \<Longrightarrow> grows st (emit s sep n st)"
  by (simp add: grows_def emit_def)

lemma grows_emit2: "grows st (emit s (NL @ NL) 2 st)"
  by (rule grows_emit) (rule length_NL2)

lemma grows_emit1: "grows st (emit s NL 1 st)"
  by (rule grows_emit) (simp add: NL_def)

lemma grows_emit_plain_text: "grows st (emit_plain_text t st)"
  by (simp add: emit_plain_text_def Let_def grows_refl grows_emit2)

lemma mark_images_parts:
  "mark_images pno infos (marks, st) = (marks', st') \<Longrightarrow>
   parts st' = parts st \<and> char_count st' = char_count st \<and> offs st' = offs st"
  by (induction infos arbitrary: marks st) (auto simp: Let_def)

lemma step_ok_simple: "step_ok simple_page"
  unfolding step_ok_def
proof (intro allI impI)
  fix pno pg st st'
  assume a: "simple_page pno pg st = Inr st'"
  then obtain t where t: "p_text pg = Inr t"
    by (auto simp: simple_page_def Let_def split: sum.splits)
  define st1 where "st1 = emit_plain_text t st"
  define imgs where "imgs = (case p_images pg of Inl e \<Rightarrow> [] | Inr is \<Rightarrow> is)"
  define st2 where "st2 = (if imgs \<noteq> [] then
                          (case mark_images pno imgs ([], st1) of
                             (marks, st') \<Rightarrow> emit (join (lit '' '') marks) (NL @ NL) 2 st')
                        else st1)"
  have g1: "grows st st1" unfolding st1_def by (rule grows_emit_plain_text)
  have g2: "grows st1 st2"
  proof (cases "imgs \<noteq> []")
    case True
    obtain marks sx where mi: "mark_images pno imgs ([], st1) = (marks, sx)"
      by (cases "mark_images pno imgs ([], st1)")
    from mark_images_parts [OF mi] have "grows st1 sx" by (simp add: grows_def)
    moreover have "grows sx (emit (join (lit '' '') marks) (NL @ NL) 2 sx)"
      by (rule grows_emit) (rule length_NL2)
    ultimately show ?thesis using True mi by (simp add: st2_def grows_trans)
  next
    case False
    then show ?thesis by (simp add: st2_def grows_refl)
  qed
  have st': "st' = st2\<lparr>offs := offs st2 @ [(char_count st, char_count st2)]\<rparr>"
    using a t unfolding simple_page_def Let_def st1_def st2_def imgs_def by auto
  from grows_trans [OF g1 g2] st'
  show "\<exists>ps. parts st' = parts st @ ps \<and>
              char_count st' = char_count st + length (concat ps) \<and>
              offs st' = offs st @ [(char_count st, char_count st')]"
    by (auto simp: grows_def)
qed

lemma grows_text_lines: "text_lines ls (st, w) = (st', w') \<Longrightarrow> grows st st'"
proof (induction ls arbitrary: st w)
  case Nil
  then show ?case by (simp add: grows_refl)
next
  case (Cons l ls)
  show ?case
  proof (cases "strip (line_text l) \<noteq> []")
    case True
    with Cons.prems have "text_lines ls (emit (line_text l) NL 1 st, True) = (st', w')"
      by (simp add: Let_def)
    then have "grows (emit (line_text l) NL 1 st) st'" by (rule Cons.IH)
    moreover have "grows st (emit (line_text l) NL 1 st)"
      by (rule grows_emit) (simp add: NL_def)
    ultimately show ?thesis by (meson grows_trans)
  next
    case False
    with Cons.prems have "text_lines ls (st, w) = (st', w')" by (simp add: Let_def)
    then show ?thesis by (rule Cons.IH)
  qed
qed

lemma grows_struct_block:
  assumes "struct_block sh ph pno blk (st, w) = (st', w')"
  shows "grows st st'"
proof -
  obtain x0 y0 x1 y1 where bb: "(case b_bbox blk of None \<Rightarrow> (0, 0, 0, 0) | Some b \<Rightarrow> b) = (x0, y0, x1, y1)"
    by (cases "(case b_bbox blk of None \<Rightarrow> (0::real, 0::real, 0::real, 0::real) | Some b \<Rightarrow> b)") auto
  obtain sx wx where tl: "text_lines (case b_lines blk of None \<Rightarrow> [] | Some ls \<Rightarrow> ls) (st, w) = (sx, wx)"
    by (cases "text_lines (case b_lines blk of None \<Rightarrow> [] | Some ls \<Rightarrow> ls) (st, w)")
  have gt: "grows st (sx\<lparr>parts := parts sx @ [NL], char_count := Suc (char_count sx)\<rparr>)"
    using grows_text_lines [OF tl] by (auto simp: grows_def NL_def)
  have gi: "grows st ((emit mk (NL @ NL) 2 (st\<lparr>fig_id := k\<rparr>))\<lparr>figs := F\<rparr>)" for mk k F
    by (simp add: grows_def emit_def NL_def)
  from assms show ?thesis
    unfolding struct_block_def Let_def bb
    by (auto simp: tl grows_refl gt gi split: if_splits)
qed

lemma grows_fold_struct_block:
  "fold (struct_block sh ph pno) blks (st, w) = (st', w') \<Longrightarrow> grows st st'"
proof (induction blks arbitrary: st w)
  case Nil
  then show ?case by (simp add: grows_refl)
next
  case (Cons b blks)
  obtain s1 w1 where b: "struct_block sh ph pno b (st, w) = (s1, w1)"
    by (cases "struct_block sh ph pno b (st, w)")
  with Cons.prems have "fold (struct_block sh ph pno) blks (s1, w1) = (st', w')" by simp
  then have "grows s1 st'" by (rule Cons.IH)
  with grows_struct_block [OF b] show ?case by (meson grows_trans)
qed

lemma step_ok_struct: "step_ok (struct_page sh)"
  unfolding step_ok_def
proof (intro allI impI)
  fix pno pg st st'
  assume a: "struct_page sh pno pg st = Inr st'"
  then obtain raw where raw: "p_rawdict pg = Inr raw"
    by (auto simp: struct_page_def Let_def split: sum.splits)
  obtain s1 w1 where f: "fold (struct_block sh (p_rect_height pg) pno)
                        (case raw of None \<Rightarrow> [] | Some bs \<Rightarrow> bs) (st, False) = (s1, w1)"
    by (cases "fold (struct_block sh (p_rect_height pg) pno)
                        (case raw of None \<Rightarrow> [] | Some bs \<Rightarrow> bs) (st, False)")
  have g1: "grows st s1" using f by (rule grows_fold_struct_block)
  show "\<exists>ps. parts st' = parts st @ ps \<and>
              char_count st' = char_count st + length (concat ps) \<and>
              offs st' = offs st @ [(char_count st, char_count st')]"
  proof (cases w1)
    case True
    with a raw f have "st' = s1\<lparr>offs := offs s1 @ [(char_count st, char_count s1)]\<rparr>"
      by (simp add: struct_page_def Let_def)
    with g1 show ?thesis by (auto simp: grows_def)
  next
    case False
    with a raw f obtain t where t: "p_text pg = Inr t"
      by (auto simp: struct_page_def Let_def split: sum.splits)
    let ?s2 = "emit_plain_text t s1"
    from False a raw f t have "st' = ?s2\<lparr>offs := offs ?s2 @ [(char_count st, char_count ?s2)]\<rparr>"
      by (simp add: struct_page_def Let_def)
    moreover have "grows st ?s2" using g1 grows_emit_plain_text by (meson grows_trans)
    ultimately show ?thesis by (auto simp: grows_def)
  qed
qed

lemma step_ok_page_step: "step_ok (page_step m)"
  by (simp add: page_step_def step_ok_simple step_ok_struct)

lemma chained_le: "chained a xs b \<Longrightarrow> a \<le> b"
  by (induction a xs b rule: chained.induct) auto

lemma chained_append:
  "chained a (xs @ ys) c \<longleftrightarrow> (\<exists>b. chained a xs b \<and> chained b ys c)"
  by (induction a xs c rule: chained.induct) auto

lemma chained_bounds:
  "chained a xs b \<Longrightarrow> j < length xs \<Longrightarrow>
   a \<le> fst (xs ! j) \<and> fst (xs ! j) \<le> snd (xs ! j) \<and> snd (xs ! j) \<le> b"
proof (induction a xs b arbitrary: j rule: chained.induct)
  case (1 a b)
  then show ?case by simp
next
  case (2 a s e xs b)
  show ?case
  proof (cases j)
    case 0
    with "2.prems" chained_le [of e xs b] show ?thesis by simp
  next
    case (Suc j')
    with "2.prems" "2.IH" [of j'] show ?thesis by auto
  qed
qed

lemma chained_mono:
  "chained a xs b \<Longrightarrow> i < j \<Longrightarrow> j < length xs \<Longrightarrow> snd (xs ! i) \<le> fst (xs ! j)"
proof (induction a xs b arbitrary: i j rule: chained.induct)
  case (1 a b)
  then show ?case by simp
next
  case (2 a s e xs b)
  from "2.prems"(2) obtain j' where j: "j = Suc j'" by (cases j) auto
  show ?case
  proof (cases i)
    case 0
    with "2.prems" j chained_bounds [of e xs b j'] show ?thesis by simp
  next
    case (Suc i')
    with "2.prems" j "2.IH" [of i' j'] show ?thesis by simp
  qed
qed

lemma chained_contiguous:
  "chained a xs b \<Longrightarrow> Suc i < length xs \<Longrightarrow> fst (xs ! Suc i) = snd (xs ! i)"
proof (induction a xs b arbitrary: i rule: chained.induct)
  case (1 a b)
  then show ?case by simp
next
  case (2 a s e xs b)
  show ?case
  proof (cases i)
    case 0
    with "2.prems" show ?thesis by (cases xs) auto
  next
    case (Suc i')
    with "2.prems" "2.IH" [of i'] show ?thesis by simp
  qed
qed

lemma build_loop_append:
  "build_loop step d (xs @ ys) st =
     (case build_loop step d xs st of Inl e \<Rightarrow> Inl e | Inr st1 \<Rightarrow> build_loop step d ys st1)"
  by (induction xs arbitrary: st) (auto split: sum.splits)

lemma build_loop_grows:
  assumes "step_ok step" "build_loop step d pnos st = Inr st'"
  shows "\<exists>ps new. parts st' = parts st @ ps \<and>
           char_count st' = char_count st + length (concat ps) \<and>
           offs st' = offs st @ new \<and> length new = length pnos \<and>
           chained (char_count st) new (char_count st')"
  using assms(2)
proof (induction pnos arbitrary: st)
  case Nil
  then show ?case by simp
next
  case (Cons pno pnos)
  from Cons.prems obtain pg s1 where pg: "doc_getitem d pno = Inr pg"
    and s1: "step pno pg st = Inr s1" and rest: "build_loop step d pnos s1 = Inr st'"
    by (auto split: sum.splits)
  from assms(1) s1 obtain p1 where p1: "parts s1 = parts st @ p1"
      "char_count s1 = char_count st + length (concat p1)"
      "offs s1 = offs st @ [(char_count st, char_count s1)]"
    unfolding step_ok_def by blast
  from Cons.IH [OF rest] obtain p2 new where p2: "parts st' = parts s1 @ p2"
      "char_count st' = char_count s1 + length (concat p2)"
      "offs st' = offs s1 @ new" "length new = length pnos"
      "chained (char_count s1) new (char_count st')"
    by blast
  have "parts st' = parts st @ (p1 @ p2)" using p1 p2 by simp
  moreover have "char_count st' = char_count st + length (concat (p1 @ p2))" using p1 p2 by simp
  moreover have "offs st' = offs st @ ((char_count st, char_count s1) # new)" using p1 p2 by simp
  moreover have "length ((char_count st, char_count s1) # new) = length (pno # pnos)"
    using p2 by simp
  moreover have "chained (char_count st) ((char_count st, char_count s1) # new) (char_count st')"
    using p1(2) p2(5) by simp
  ultimately show ?case by blast
qed

lemma build_loop_of_eq:
  "build_loop_of m = build_loop (page_step m) (doc m) (py_range (page_count m)) bstate0"
  by (simp add: build_loop_of_def page_step_def build_simple_loop_def build_structured_loop_def)

lemma build_eq:
  "build m = (case build_loop_of m of Inl e \<Rightarrow> Inl e | Inr st \<Rightarrow> Inr (finish_build m st))"
  by (simp add: build_def build_loop_of_def build_simple_def build_structured_def)

lemma build_offsets:
  assumes "build m = Inr m'"
  shows "\<exists>st. build_loop_of m = Inr st \<and> m' = finish_build m st \<and>
              length (offs st) = nat (page_count m) \<and>
              chained 0 (offs st) (char_count st) \<and>
              char_count st = length (concat (parts st))"
proof -
  from assms obtain st where st: "build_loop_of m = Inr st" "m' = finish_build m st"
    by (auto simp: build_eq split: sum.splits)
  from build_loop_grows [OF step_ok_page_step st(1) [unfolded build_loop_of_eq]]
  have "length (offs st) = nat (page_count m) \<and> chained 0 (offs st) (char_count st) \<and>
        char_count st = length (concat (parts st))"
    by (auto simp: bstate0_def py_range_def)
  with st show ?thesis by blast
qed

text \<open>
  Claim C2. After a successful extraction in either mode there is one offset range per
  page, and for page indices \<open>i < j\<close> below the page count the range of page \<open>i\<close> ends
  no later than the range of page \<open>j\<close> starts; each range ends no earlier than it
  starts, and the range of page \<open>i + 1\<close> starts exactly where that of page \<open>i\<close> ends.
\<close>

theorem offsets_monotonic:
  assumes "build m = Inr m'" "i < j" "j < nat (page_count m')"
  shows "length (page_offsets m') = nat (page_count m') \<and>
         fst (page_offsets m' ! i) \<le> snd (page_offsets m' ! i) \<and>
         snd (page_offsets m' ! i) \<le> fst (page_offsets m' ! j) \<and>
         fst (page_offsets m' ! Suc i) = snd (page_offsets m' ! i)"
proof -
  from build_offsets [OF assms(1)] obtain st where st: "m' = finish_build m st"
      "length (offs st) = nat (page_count m)" "chained 0 (offs st) (char_count st)"
    by blast
  have po: "page_offsets m' = offs st" "page_count m' = page_count m"
    using st(1) by (simp_all add: finish_build_def)
  have j: "j < length (offs st)" using assms(3) st(2) po by simp
  then have i: "i < length (offs st)" "Suc i < length (offs st)" using assms(2) by simp_all
  from chained_mono [OF st(3) assms(2) j] chained_bounds [OF st(3) i(1)]
       chained_contiguous [OF st(3) i(2)] st(2) po
  show ?thesis by simp
qed

theorem offsets_monotonic_witness:
  "build (ex_model ''simple'') = Inr ex_simple_built \<and> (0::nat) < 1 \<and>
   1 < nat (page_count ex_simple_built) \<and>
   length (page_offsets ex_simple_built) = nat (page_count ex_simple_built) \<and>
   fst (page_offsets ex_simple_built ! 0) \<le> snd (page_offsets ex_simple_built ! 0) \<and>
   snd (page_offsets ex_simple_built ! 0) \<le> fst (page_offsets ex_simple_built ! 1) \<and>
   fst (page_offsets ex_simple_built ! Suc 0) = snd (page_offsets ex_simple_built ! 0)"
proof -
  have b: "build (ex_model ''simple'') = Inr ex_simple_built" by (rule ex_build_simple)
  have ij: "(0::nat) < 1" by simp
  have j: "1 < nat (page_count ex_simple_built)"
    by (simp add: ex_simple_built_def ex_model_def)
  from offsets_monotonic [OF b ij j] b ij j show ?thesis by simp
qed

lemma rstrip_take: "rstrip s = take (length (rstrip s)) s"
proof -
  let ?j = "length (takeWhile isspace (rev s))"
  have "dropWhile isspace (rev s) = drop ?j (rev s)"
    by (rule dropWhile_eq_drop)
  then have "rstrip s = take (length s - ?j) s"
    by (simp add: rstrip_def rev_drop)
  then show ?thesis by (metis length_take min.absorb_iff2 nat_le_linear take_all take_take)
qed

lemma pyslice_take:
  "pyslice (take L U) s e = take (L - s) (pyslice U s e)"
  by (simp add: pyslice_def drop_take min.commute)

lemma pyslice_mid: "pyslice (a @ b @ c) (length a) (length a + length b) = b"
  by (simp add: pyslice_def)


lemma build_loop_page:
  assumes ok: "step_ok step"
    and run: "build_loop step d [0..<n] bstate0 = Inr st"
    and i: "i < n"
  shows "\<exists>sti pg sti'. build_loop step d [0..<i] bstate0 = Inr sti \<and>
           doc_getitem d i = Inr pg \<and> step i pg sti = Inr sti' \<and>
           offs st ! i = (char_count sti, char_count sti') \<and>
           char_count sti = length (concat (parts sti)) \<and>
           (\<exists>ps tl. parts sti' = parts sti @ ps \<and> parts st = parts sti @ ps @ tl \<and>
                    char_count sti' = char_count sti + length (concat ps))"
proof -
  have split: "[0..<n] = [0..<i] @ i # [Suc i..<n]"
    using i by (metis less_imp_add_positive upt_add_eq_append upt_conv_Cons zero_le)
  from run obtain sti where sti: "build_loop step d [0..<i] bstate0 = Inr sti"
    and rest: "build_loop step d (i # [Suc i..<n]) sti = Inr st"
    unfolding split build_loop_append by (auto split: sum.splits)
  from rest obtain pg sti' where pg: "doc_getitem d i = Inr pg"
    and stp: "step i pg sti = Inr sti'"
    and tl: "build_loop step d [Suc i..<n] sti' = Inr st"
    by (auto split: sum.splits)
  from build_loop_grows [OF ok sti] have a: "length (offs sti) = i"
      "char_count sti = length (concat (parts sti))"
    by (auto simp: bstate0_def)
  from ok stp obtain ps where ps: "parts sti' = parts sti @ ps"
      "char_count sti' = char_count sti + length (concat ps)"
      "offs sti' = offs sti @ [(char_count sti, char_count sti')]"
    unfolding step_ok_def by blast
  from build_loop_grows [OF ok tl] obtain p2 new where p2: "parts st = parts sti' @ p2"
      "offs st = offs sti' @ new"
    by blast
  have "offs st ! i = (char_count sti, char_count sti')"
    using p2(2) ps(3) a(1) by (simp add: nth_append)
  moreover have "parts st = parts sti @ ps @ p2" using p2(1) ps(1) by simp
  ultimately show ?thesis using sti pg stp a(2) ps(1,2) by blast
qed

text \<open>
  Claim C1, as amended. After a successful extraction in either mode, for every page
  index \<open>i\<close> below the page count, the range recorded for page \<open>i\<close> cuts exactly page
  \<open>i\<close>'s contribution out of the untrimmed buffer. \<open>MergedText\<close> is that buffer with its
  trailing whitespace removed, so the same range cuts out of \<open>MergedText\<close> the part of
  the contribution that lies before the trim point: a prefix of the contribution, and
  the whole of it whenever the range ends within \<open>MergedText\<close>.
\<close>

theorem page_slice_of_buffer:
  assumes b: "build m = Inr m'" and i: "i < nat (page_count m)"
  shows "\<exists>st c. build_loop_of m = Inr st \<and> merged_text m' = rstrip (untrimmed st) \<and>
           page_contribution m i = Some c \<and>
           pyslice (untrimmed st) (fst (page_offsets m' ! i)) (snd (page_offsets m' ! i)) = c \<and>
           pyslice (merged_text m') (fst (page_offsets m' ! i)) (snd (page_offsets m' ! i)) =
             take (length (merged_text m') - fst (page_offsets m' ! i)) c \<and>
           (snd (page_offsets m' ! i) \<le> length (merged_text m') \<longrightarrow>
              pyslice (merged_text m') (fst (page_offsets m' ! i)) (snd (page_offsets m' ! i)) = c)"
proof -
  from b obtain st where st: "build_loop_of m = Inr st" "m' = finish_build m st"
    by (auto simp: build_eq split: sum.splits)
  have run: "build_loop (page_step m) (doc m) [0..<nat (page_count m)] bstate0 = Inr st"
    using st(1) by (simp add: build_loop_of_eq py_range_def)
  from build_loop_page [OF step_ok_page_step run i]
  obtain sti pg sti' ps tl where sti: "build_loop (page_step m) (doc m) [0..<i] bstate0 = Inr sti"
    and pg: "doc_getitem (doc m) i = Inr pg" and stp: "page_step m i pg sti = Inr sti'"
    and off: "offs st ! i = (char_count sti, char_count sti')"
    and cc: "char_count sti = length (concat (parts sti))"
    and ps: "parts sti' = parts sti @ ps" "parts st = parts sti @ ps @ tl"
            "char_count sti' = char_count sti + length (concat ps)"
    by blast
  let ?c = "concat ps"
  let ?s = "fst (page_offsets m' ! i)" and ?e = "snd (page_offsets m' ! i)"
  have po: "page_offsets m' = offs st" and mt: "merged_text m' = rstrip (untrimmed st)"
    using st(2) by (simp_all add: finish_build_def untrimmed_def)
  have se: "?s = length (concat (parts sti))" "?e = length (concat (parts sti)) + length ?c"
    using off cc ps(3) po by simp_all
  have contrib: "page_contribution m i = Some ?c"
    using sti pg stp ps(1) by (simp add: page_contribution_def state_before_def)
  have u: "untrimmed st = concat (parts sti) @ ?c @ concat tl"
    using ps(2) by (simp add: untrimmed_def)
  have sl: "pyslice (untrimmed st) ?s ?e = ?c"
    unfolding u se by (rule pyslice_mid)
  have "merged_text m' = take (length (merged_text m')) (untrimmed st)"
    unfolding mt by (rule rstrip_take)
  then have "pyslice (merged_text m') ?s ?e =
             pyslice (take (length (merged_text m')) (untrimmed st)) ?s ?e"
    by simp
  also have "\<dots> = take (length (merged_text m') - ?s) (pyslice (untrimmed st) ?s ?e)"
    by (rule pyslice_take)
  finally have ms: "pyslice (merged_text m') ?s ?e = take (length (merged_text m') - ?s) ?c"
    using sl by simp
  have "pyslice (merged_text m') ?s ?e = ?c" if "?e \<le> length (merged_text m')"
  proof -
    have "length ?c \<le> length (merged_text m') - ?s" using that se by simp
    with ms show ?thesis by simp
  qed
  with st(1) mt contrib sl ms show ?thesis by blast
qed

theorem page_slice_of_buffer_witness:
  "build (ex_model ''simple'') = Inr ex_simple_built \<and>
   1 < nat (page_count (ex_model ''simple'')) \<and>
   (\<exists>st c. build_loop_of (ex_model ''simple'') = Inr st \<and>
      merged_text ex_simple_built = rstrip (untrimmed st) \<and>
      page_contribution (ex_model ''simple'') 1 = Some c \<and>
      pyslice (untrimmed st) (fst (page_offsets ex_simple_built ! 1))
                             (snd (page_offsets ex_simple_built ! 1)) = c \<and>
      pyslice (merged_text ex_simple_built) (fst (page_offsets ex_simple_built ! 1))
                                            (snd (page_offsets ex_simple_built ! 1)) =
        take (length (merged_text ex_simple_built) - fst (page_offsets ex_simple_built ! 1)) c)"
proof -
  have i: "1 < nat (page_count (ex_model ''simple''))" by (simp add: ex_model_def)
  from page_slice_of_buffer [OF ex_build_simple i] ex_build_simple i show ?thesis by blast
qed

lemma ex_contribution_simple:
  "page_contribution (ex_model ''simple'') 1 =
   Some [98, 10, 10, 91, 70, 73, 71, 85, 82, 69, 32, 49, 32, 40, 112, 50, 41, 93, 10, 10]"
  by (simp add: page_contribution_def state_before_def page_step_def ex_eval)

text \<open>
  Claim C1, as stated, fails on the last page: the simple build of the two-page document
  records the range \<open>(3, 23)\<close> for page 1, whose contribution is the 20 characters
  \<^verbatim>\<open>b\n\n[FIGURE 1 (p2)]\n\n\<close>, but \<open>MergedText\<close> has 21 characters and the slice
  yields only the first 18 of them.
\<close>

theorem page_slice_counterexample:
  "build (ex_model ''simple'') = Inr ex_simple_built \<and>
   page_offsets ex_simple_built ! 1 = (3, 23) \<and>
   page_contribution (ex_model ''simple'') 1 =
     Some [98, 10, 10, 91, 70, 73, 71, 85, 82, 69, 32, 49, 32, 40, 112, 50, 41, 93, 10, 10] \<and>
   pyslice (merged_text ex_simple_built) 3 23 =
     [98, 10, 10, 91, 70, 73, 71, 85, 82, 69, 32, 49, 32, 40, 112, 50, 41, 93] \<and>
   Some (pyslice (merged_text ex_simple_built) 3 23) \<noteq> page_contribution (ex_model ''simple'') 1"
proof -
  have a: "page_offsets ex_simple_built ! 1 = (3, 23)"
    by (simp add: ex_simple_built_def)
  have s: "pyslice (merged_text ex_simple_built) 3 23 =
     [98, 10, 10, 91, 70, 73, 71, 85, 82, 69, 32, 49, 32, 40, 112, 50, 41, 93]"
    by (simp add: ex_simple_built_def pyslice_def)
  have d: "Some (pyslice (merged_text ex_simple_built) 3 23) \<noteq>
           page_contribution (ex_model ''simple'') 1"
    unfolding s ex_contribution_simple by simp
  from ex_build_simple a ex_contribution_simple s d show ?thesis by (intro conjI)
qed

lemma build_loop_of_outputs_irrelevant:
  "build_loop_of (m\<lparr>merged_text := t, figures := f, page_offsets := po\<rparr>) = build_loop_of m"
  by (simp add: build_loop_of_def build_simple_loop_def build_structured_loop_def)

lemma finish_build_overrides:
  "finish_build (m\<lparr>merged_text := t, figures := f, page_offsets := po\<rparr>) st = finish_build m st"
  by (simp add: finish_build_def)

text \<open>
  Claim C9. Extraction is a function of the document, the mode and the header-stripping
  flag alone: if a build of model \<open>m\<close> yields \<open>m'\<close>, then building again from \<open>m'\<close> yields
  \<open>m'\<close> once more (the same merged text, offsets and figure registry), and so does a
  build from \<open>m\<close> with any other merged text, figures and offsets left over from an
  earlier pass: what was there before is discarded, not updated.
\<close>

theorem extraction_deterministic:
  assumes "build m = Inr m'"
  shows "build m' = Inr m' \<and>
         (\<forall>t f po. build (m\<lparr>merged_text := t, figures := f, page_offsets := po\<rparr>) = Inr m')"
proof -
  from assms obtain st where st: "build_loop_of m = Inr st" "m' = finish_build m st"
    by (auto simp: build_eq split: sum.splits)
  have any: "build (m\<lparr>merged_text := t, figures := f, page_offsets := po\<rparr>) = Inr m'" for t f po
    using st by (simp add: build_eq build_loop_of_outputs_irrelevant finish_build_overrides)
  have "m' = m\<lparr>merged_text := merged_text m', figures := figures m', page_offsets := page_offsets m'\<rparr>"
    using st(2) by (simp add: finish_build_def)
  moreover have "build (m\<lparr>merged_text := merged_text m', figures := figures m',
                           page_offsets := page_offsets m'\<rparr>) = Inr m'"
    by (rule any)
  ultimately have "build m' = Inr m'"
    by simp
  with any show ?thesis by blast
qed

theorem extraction_deterministic_witness:
  "build (ex_model ''structured'') = Inr ex_structured_built \<and>
   build ex_structured_built = Inr ex_structured_built \<and>
   build ((ex_model ''structured'')
            \<lparr>merged_text := [120], figures := [(9, \<lparr>f_page = 5, f_xref = VNone, f_bbox = None\<rparr>)],
             page_offsets := [(4, 2)]\<rparr>) = Inr ex_structured_built"
  using extraction_deterministic [OF ex_build_structured] ex_build_structured by blast

section \<open>The figure registry\<close>

lemma fig_append_refl: "fig_append st st []"
  by (simp add: fig_append_def)

lemma fig_append_same: "figs st' = figs st \<Longrightarrow> fig_id st' = fig_id st \<Longrightarrow> fig_append st st' []"
  by (simp add: fig_append_def)

lemma zip_upt_append:
  "zip [a..<a + length xs + length ys] (xs @ ys) =
   zip [a..<a + length xs] xs @ zip [a + length xs..<a + length xs + length ys] ys"
proof -
  have "[a..<a + length xs + length ys] = [a..<a + length xs] @ [a + length xs..<a + length xs + length ys]"
    by (metis le_add1 upt_add_eq_append)
  then show ?thesis by simp
qed

lemma fig_append_trans:
  assumes "fig_append a b n1" "fig_append b c n2"
  shows "fig_append a c (n1 @ n2)"
proof -
  have "zip [Suc (fig_id a)..<Suc (fig_id a) + length n1 + length n2] (n1 @ n2) =
        zip [Suc (fig_id a)..<Suc (fig_id a) + length n1] n1 @
        zip [Suc (fig_id a) + length n1..<Suc (fig_id a) + length n1 + length n2] n2"
    by (rule zip_upt_append)
  with assms show ?thesis by (simp add: fig_append_def add.assoc)
qed

lemma figs_ok_append:
  assumes "figs_ok a" "fig_append a b new"
  shows "figs_ok b"
proof -
  have "map fst (zip [Suc (fig_id a)..<Suc (fig_id a) + length new] new) =
        [Suc (fig_id a)..<Suc (fig_id a) + length new]"
    by simp
  with assms have "map fst (figs b) = [1..<Suc (fig_id a)] @ [Suc (fig_id a)..<Suc (fig_id a) + length new]"
    by (simp add: figs_ok_def fig_append_def)
  also have "\<dots> = [1..<Suc (fig_id a) + length new]"
    using upt_add_eq_append [of 1 "Suc (fig_id a)" "length new"] by simp
  finally show ?thesis using assms(2) by (simp add: figs_ok_def fig_append_def)
qed

lemma fig_append_register:
  assumes "figs_ok st" "figs st1 = figs st" "fig_id st1 = Suc (fig_id st)"
  shows "fig_append st (st1\<lparr>figs := od_setitem (figs st1) (Suc (fig_id st)) F\<rparr>) [F]"
proof -
  have "Suc (fig_id st) \<notin> set (map fst (figs st))"
    using assms(1) by (simp add: figs_ok_def)
  then have "Suc (fig_id st) \<notin> fst ` set (figs st)" by simp
  then have "od_setitem (figs st) (Suc (fig_id st)) F = figs st @ [(Suc (fig_id st), F)]"
    by (rule setitem_fresh)
  with assms(2,3) show ?thesis by (simp add: fig_append_def)
qed

lemma fig_append_mark_images:
  assumes "figs_ok st" "mark_images pno infos (marks, st) = (marks', st')"
  shows "fig_append st st' (map (\<lambda>x. \<lparr>f_page = pno, f_xref = VInt x, f_bbox = None\<rparr>) infos)"
  using assms
proof (induction infos arbitrary: marks st)
  case Nil
  then show ?case by (simp add: fig_append_refl)
next
  case (Cons x infos)
  let ?F = "\<lparr>f_page = pno, f_xref = VInt x, f_bbox = None\<rparr>"
  let ?s0 = "st\<lparr>fig_id := Suc (fig_id st)\<rparr>"
  let ?s1 = "?s0\<lparr>figs := od_setitem (figs ?s0) (Suc (fig_id st)) ?F\<rparr>"
  have one: "fig_append st ?s1 [?F]"
    by (rule fig_append_register [OF Cons.prems(1)]) simp_all
  then have ok1: "figs_ok ?s1" using Cons.prems(1) figs_ok_append by blast
  from Cons.prems(2) have "mark_images pno infos (marks @ [marker (Suc (fig_id st)) pno], ?s1) = (marks', st')"
    by (simp add: Let_def)
  from Cons.IH [OF ok1 this]
  have "fig_append ?s1 st' (map (\<lambda>x. \<lparr>f_page = pno, f_xref = VInt x, f_bbox = None\<rparr>) infos)" .
  with one have "fig_append st st'
       ([?F] @ map (\<lambda>x. \<lparr>f_page = pno, f_xref = VInt x, f_bbox = None\<rparr>) infos)"
    by (rule fig_append_trans)
  then show ?case by simp
qed

lemma emit_figs: "figs (emit s sep n st) = figs st \<and> fig_id (emit s sep n st) = fig_id st"
  by (simp add: emit_def)

lemma emit_plain_text_figs:
  "figs (emit_plain_text t st) = figs st \<and> fig_id (emit_plain_text t st) = fig_id st"
  by (simp add: emit_plain_text_def Let_def emit_figs)

lemma fig_append_cong:
  "fig_append a b new \<Longrightarrow> figs c = figs b \<Longrightarrow> fig_id c = fig_id b \<Longrightarrow> fig_append a c new"
  by (simp add: fig_append_def)

lemma fig_append_cong0:
  "fig_append a b new \<Longrightarrow> figs a' = figs a \<Longrightarrow> fig_id a' = fig_id a \<Longrightarrow> fig_append a' b new"
  by (simp add: fig_append_def)

lemma fig_append_simple_page:
  assumes ok: "figs_ok st" and a: "simple_page pno pg st = Inr st'"
  shows "fig_append st st' (simple_page_figs pno pg)"
proof -
  from a obtain t where t: "p_text pg = Inr t"
    by (auto simp: simple_page_def Let_def split: sum.splits)
  define st1 where "st1 = emit_plain_text t st"
  define imgs where "imgs = (case p_images pg of Inl e \<Rightarrow> [] | Inr is \<Rightarrow> is)"
  define st2 where "st2 = (if imgs \<noteq> [] then
                          (case mark_images pno imgs ([], st1) of
                             (marks, st') \<Rightarrow> emit (join (lit '' '') marks) (NL @ NL) 2 st')
                        else st1)"
  have st': "st' = st2\<lparr>offs := offs st2 @ [(char_count st, char_count st2)]\<rparr>"
    using a t unfolding simple_page_def Let_def st1_def st2_def imgs_def by auto
  have f1: "figs st1 = figs st" "fig_id st1 = fig_id st"
    by (simp_all add: st1_def emit_plain_text_figs)
  then have ok1: "figs_ok st1" using ok by (simp add: figs_ok_def)
  have spf: "simple_page_figs pno pg = map (\<lambda>x. \<lparr>f_page = pno, f_xref = VInt x, f_bbox = None\<rparr>) imgs"
    by (simp add: simple_page_figs_def imgs_def)
  have "fig_append st1 st2 (simple_page_figs pno pg)"
  proof (cases "imgs \<noteq> []")
    case True
    obtain marks sx where mi: "mark_images pno imgs ([], st1) = (marks, sx)"
      by (cases "mark_images pno imgs ([], st1)")
    from fig_append_mark_images [OF ok1 mi] have "fig_append st1 sx (simple_page_figs pno pg)"
      by (simp add: spf)
    moreover have "st2 = emit (join (lit '' '') marks) (NL @ NL) 2 sx"
      using True mi by (simp add: st2_def)
    ultimately show ?thesis by (simp add: fig_append_def emit_figs)
  next
    case False
    then show ?thesis by (simp add: st2_def spf fig_append_refl)
  qed
  then show ?thesis using f1 st' by (simp add: fig_append_def)
qed

lemma text_lines_figs:
  "text_lines ls (st, w) = (st', w') \<Longrightarrow> figs st' = figs st \<and> fig_id st' = fig_id st"
proof (induction ls arbitrary: st w)
  case Nil
  then show ?case by simp
next
  case (Cons l ls)
  show ?case
  proof (cases "strip (line_text l) \<noteq> []")
    case True
    with Cons.prems have "text_lines ls (emit (line_text l) NL 1 st, True) = (st', w')"
      by (simp add: Let_def)
    from Cons.IH [OF this] show ?thesis by (simp add: emit_figs)
  next
    case False
    with Cons.prems have "text_lines ls (st, w) = (st', w')" by (simp add: Let_def)
    then show ?thesis by (rule Cons.IH)
  qed
qed

lemma fig_append_struct_block:
  assumes ok: "figs_ok st" and a: "struct_block sh ph pno blk (st, w) = (st', w')"
  shows "fig_append st st' (if is_figure_block blk then [block_figure pno blk] else [])"
proof -
  obtain x0 y0 x1 y1 where bb: "(case b_bbox blk of None \<Rightarrow> (0, 0, 0, 0) | Some b \<Rightarrow> b) = (x0, y0, x1, y1)"
    by (cases "(case b_bbox blk of None \<Rightarrow> (0::real, 0::real, 0::real, 0::real) | Some b \<Rightarrow> b)") auto
  obtain sx wx where tl: "text_lines (case b_lines blk of None \<Rightarrow> [] | Some ls \<Rightarrow> ls) (st, w) = (sx, wx)"
    by (cases "text_lines (case b_lines blk of None \<Rightarrow> [] | Some ls \<Rightarrow> ls) (st, w)")
  let ?bt = "(case b_type blk of None \<Rightarrow> 0 | Some t \<Rightarrow> t)"
  have bt1: "?bt = 1 \<longleftrightarrow> b_type blk = Some 1" by (cases "b_type blk") auto
  show ?thesis
  proof (cases "is_figure_block blk")
    case True
    then have t1: "?bt = 1" and tr: "truthy (py_or (b_xref blk) (b_image blk))"
      using bt1 by (simp_all add: is_figure_block_def)
    let ?s0 = "emit (marker (Suc (fig_id st)) pno) (NL @ NL) 2 (st\<lparr>fig_id := Suc (fig_id st)\<rparr>)"
    have "st' = ?s0\<lparr>figs := od_setitem (figs ?s0) (Suc (fig_id st)) (block_figure pno blk)\<rparr>"
      using a t1 tr unfolding struct_block_def Let_def bb
      by (simp add: block_figure_def bb)
    moreover have "fig_append st (?s0\<lparr>figs := od_setitem (figs ?s0) (Suc (fig_id st)) (block_figure pno blk)\<rparr>)
                     [block_figure pno blk]"
      by (rule fig_append_register [OF ok]) (simp_all add: emit_figs)
    ultimately show ?thesis using True by simp
  next
    case False
    have "figs st' = figs st \<and> fig_id st' = fig_id st"
    proof (cases "?bt = 0")
      case True
      with a show ?thesis
        unfolding struct_block_def Let_def bb
        using text_lines_figs [OF tl] by (auto simp: tl split: if_splits)
    next
      case nz: False
      show ?thesis
      proof (cases "?bt = 1")
        case True
        with False bt1 have "\<not> truthy (py_or (b_xref blk) (b_image blk))"
          by (simp add: is_figure_block_def)
        with a True show ?thesis unfolding struct_block_def Let_def bb by simp
      next
        case False
        with a nz show ?thesis unfolding struct_block_def Let_def bb by simp
      qed
    qed
    with False show ?thesis by (simp add: fig_append_same)
  qed
qed

lemma fig_append_fold_struct_block:
  assumes "figs_ok st" "fold (struct_block sh ph pno) blks (st, w) = (st', w')"
  shows "fig_append st st' (map (block_figure pno) (filter is_figure_block blks))"
  using assms
proof (induction blks arbitrary: st w)
  case Nil
  then show ?case by (simp add: fig_append_refl)
next
  case (Cons b blks)
  obtain s1 w1 where b: "struct_block sh ph pno b (st, w) = (s1, w1)"
    by (cases "struct_block sh ph pno b (st, w)")
  from fig_append_struct_block [OF Cons.prems(1) b]
  have one: "fig_append st s1 (if is_figure_block b then [block_figure pno b] else [])" .
  then have ok1: "figs_ok s1" using Cons.prems(1) figs_ok_append by blast
  from Cons.prems(2) b have "fold (struct_block sh ph pno) blks (s1, w1) = (st', w')" by simp
  from Cons.IH [OF ok1 this]
  have "fig_append s1 st' (map (block_figure pno) (filter is_figure_block blks))" .
  with one have "fig_append st st'
      ((if is_figure_block b then [block_figure pno b] else []) @
       map (block_figure pno) (filter is_figure_block blks))"
    by (rule fig_append_trans)
  then show ?case by (cases "is_figure_block b") simp_all
qed

lemma fig_append_struct_page:
  assumes ok: "figs_ok st" and a: "struct_page sh pno pg st = Inr st'"
  shows "fig_append st st' (struct_page_figs pno pg)"
proof -
  from a obtain raw where raw: "p_rawdict pg = Inr raw"
    by (auto simp: struct_page_def Let_def split: sum.splits)
  let ?blks = "(case raw of None \<Rightarrow> [] | Some bs \<Rightarrow> bs)"
  obtain s1 w1 where f: "fold (struct_block sh (p_rect_height pg) pno) ?blks (st, False) = (s1, w1)"
    by (cases "fold (struct_block sh (p_rect_height pg) pno) ?blks (st, False)")
  have spf: "struct_page_figs pno pg = map (block_figure pno) (filter is_figure_block ?blks)"
    using raw by (cases raw) (simp_all add: struct_page_figs_def block_figure_def)
  from fig_append_fold_struct_block [OF ok f]
  have g1: "fig_append st s1 (struct_page_figs pno pg)" by (simp add: spf)
  show ?thesis
  proof (cases w1)
    case True
    with a raw f have "st' = s1\<lparr>offs := offs s1 @ [(char_count st, char_count s1)]\<rparr>"
      by (simp add: struct_page_def Let_def)
    with g1 show ?thesis by (simp add: fig_append_def)
  next
    case False
    with a raw f obtain t where t: "p_text pg = Inr t"
      by (auto simp: struct_page_def Let_def split: sum.splits)
    let ?s2 = "emit_plain_text t s1"
    from False a raw f t have "st' = ?s2\<lparr>offs := offs ?s2 @ [(char_count st, char_count ?s2)]\<rparr>"
      by (simp add: struct_page_def Let_def)
    with g1 show ?thesis by (simp add: fig_append_def emit_plain_text_figs)
  qed
qed

lemma fig_append_page_step:
  "figs_ok st \<Longrightarrow> page_step m pno pg st = Inr st' \<Longrightarrow> fig_append st st' (page_figs m pno pg)"
  by (auto simp: page_step_def page_figs_def fig_append_simple_page fig_append_struct_page)

lemma fig_append_build_loop:
  assumes "figs_ok st" "build_loop (page_step m) (Some pgs) pnos st = Inr st'"
  shows "fig_append st st' (concat (map (\<lambda>i. page_figs m i (pgs ! i)) pnos))"
  using assms
proof (induction pnos arbitrary: st)
  case Nil
  then show ?case by (simp add: fig_append_refl)
next
  case (Cons pno pnos)
  from Cons.prems(2) obtain pg s1 where pg: "doc_getitem (Some pgs) pno = Inr pg"
    and s1: "page_step m pno pg st = Inr s1"
    and rest: "build_loop (page_step m) (Some pgs) pnos s1 = Inr st'"
    by (auto split: sum.splits)
  from pg have pgeq: "pg = pgs ! pno" by (auto simp: doc_getitem_def split: if_splits)
  from fig_append_page_step [OF Cons.prems(1) s1]
  have one: "fig_append st s1 (page_figs m pno (pgs ! pno))" by (simp add: pgeq)
  then have ok1: "figs_ok s1" using Cons.prems(1) figs_ok_append by blast
  from Cons.IH [OF ok1 rest] one
  have "fig_append st st' (page_figs m pno (pgs ! pno) @
           concat (map (\<lambda>i. page_figs m i (pgs ! i)) pnos))"
    by (rule fig_append_trans [rotated])
  then show ?case by simp
qed

lemma build_loop_in_range:
  "build_loop step (Some pgs) pnos st = Inr st' \<Longrightarrow> pno \<in> set pnos \<Longrightarrow> pno < length pgs"
  by (induction pnos arbitrary: st) (auto simp: doc_getitem_def split: sum.splits if_splits)

lemma simple_page_figs_props:
  "f \<in> set (simple_page_figs pno pg) \<Longrightarrow> f_page f = pno \<and> f_bbox f = None"
  by (auto simp: simple_page_figs_def)

lemma struct_page_figs_props:
  assumes "f \<in> set (struct_page_figs pno pg)"
  shows "f_page f = pno \<and> f_bbox f \<noteq> None"
proof -
  have "struct_page_figs pno pg =
        map (block_figure pno)
            (filter is_figure_block (case p_rawdict pg of Inr (Some bs) \<Rightarrow> bs | _ \<Rightarrow> []))"
    by (simp add: struct_page_figs_def block_figure_def)
  with assms obtain blk where "f = block_figure pno blk" by auto
  then show ?thesis by (simp add: block_figure_def)
qed

text \<open>
  Claim C5. After a successful extraction of a document in either mode, the figure
  registry lists, under the ids 1, 2, 3, ... in this order, the figures of the pages in
  page order and within a page in the order met. So the ids are unique, start at 1 and
  increase strictly in processing order; each id maps to the index of the page that
  owns the figure; the bounding box is unknown in simple mode and the block's reported
  one in structured mode.
\<close>

theorem figure_ids_sequential:
  assumes b: "build m = Inr m'" and d: "doc m = Some pgs"
  shows "figures m' = numbered (all_figs m pgs) \<and>
         map fst (figures m') = [1..<Suc (length (figures m'))] \<and>
         (\<forall>k f. (k, f) \<in> set (figures m') \<longrightarrow>
            f_page f < length pgs \<and> f \<in> set (page_figs m (f_page f) (pgs ! f_page f)) \<and>
            (if mode m = ''simple'' then f_bbox f = None else f_bbox f \<noteq> None))"
proof -
  from b obtain st where st: "build_loop_of m = Inr st" "m' = finish_build m st"
    by (auto simp: build_eq split: sum.splits)
  have run: "build_loop (page_step m) (Some pgs) (py_range (page_count m)) bstate0 = Inr st"
    using st(1) d by (simp add: build_loop_of_eq)
  have ok0: "figs_ok bstate0" by (simp add: figs_ok_def bstate0_def)
  from fig_append_build_loop [OF ok0 run]
  have fa: "fig_append bstate0 st (all_figs m pgs)" by (simp add: all_figs_def)
  have fm: "figures m' = figs st" using st(2) by (simp add: finish_build_def)
  have num: "figures m' = numbered (all_figs m pgs)"
    using fa by (simp add: fm fig_append_def bstate0_def numbered_def)
  have ids: "map fst (figures m') = [1..<Suc (length (figures m'))]"
    by (simp add: num numbered_def)
  have props: "f_page f < length pgs \<and> f \<in> set (page_figs m (f_page f) (pgs ! f_page f)) \<and>
            (if mode m = ''simple'' then f_bbox f = None else f_bbox f \<noteq> None)"
    if "(k, f) \<in> set (figures m')" for k f
  proof -
    from that have "f \<in> set (all_figs m pgs)"
      unfolding num numbered_def by (rule set_zip_rightD)
    then obtain i where i: "i \<in> set (py_range (page_count m))" "f \<in> set (page_figs m i (pgs ! i))"
      by (auto simp: all_figs_def)
    from build_loop_in_range [OF run i(1)] have il: "i < length pgs" .
    have pi: "f_page f = i \<and> (if mode m = ''simple'' then f_bbox f = None else f_bbox f \<noteq> None)"
      using i(2) simple_page_figs_props [of f i "pgs ! i"] struct_page_figs_props [of f i "pgs ! i"]
      by (auto simp: page_figs_def split: if_splits)
    with il i(2) show ?thesis by simp
  qed
  from num ids props show ?thesis by blast
qed

theorem figure_ids_sequential_witness:
  "build (ex_model ''structured'') = Inr ex_structured_built \<and>
   doc (ex_model ''structured'') = Some [ex_page0, ex_page1] \<and>
   figures ex_structured_built = numbered (all_figs (ex_model ''structured'') [ex_page0, ex_page1]) \<and>
   map fst (figures ex_structured_built) = [1..<Suc (length (figures ex_structured_built))] \<and>
   figures ex_structured_built =
     [(1, \<lparr>f_page = 1, f_xref = VBytes [1, 2, 3], f_bbox = Some (0, 200, 50, 300)\<rparr>)] \<and>
   f_page \<lparr>f_page = 1, f_xref = VBytes [1, 2, 3], f_bbox = Some (0, 200, 50, 300)\<rparr>
     < length [ex_page0, ex_page1] \<and>
   \<lparr>f_page = 1, f_xref = VBytes [1, 2, 3], f_bbox = Some (0, 200, 50, 300)\<rparr>
     \<in> set (page_figs (ex_model ''structured'') 1 ([ex_page0, ex_page1] ! 1))"
proof -
  let ?F = "\<lparr>f_page = 1, f_xref = VBytes [1, 2, 3], f_bbox = Some (0, 200, 50, 300)\<rparr>"
  have d: "doc (ex_model ''structured'') = Some [ex_page0, ex_page1]"
    by (simp add: ex_model_def)
  have fg: "figures ex_structured_built = [(1, ?F)]"
    by (simp add: ex_structured_built_def)
  then have mem: "(1, ?F) \<in> set (figures ex_structured_built)" by simp
  note t = figure_ids_sequential [OF ex_build_structured d]
  from t have a: "figures ex_structured_built =
      numbered (all_figs (ex_model ''structured'') [ex_page0, ex_page1])"
    and b: "map fst (figures ex_structured_built) = [1..<Suc (length (figures ex_structured_built))]"
    by blast+
  from t mem have "f_page ?F < length [ex_page0, ex_page1] \<and>
      ?F \<in> set (page_figs (ex_model ''structured'') (f_page ?F) ([ex_page0, ex_page1] ! f_page ?F))"
    by blast
  then have c: "f_page ?F < length [ex_page0, ex_page1]"
    and e: "?F \<in> set (page_figs (ex_model ''structured'') 1 ([ex_page0, ex_page1] ! 1))"
    by simp_all
  from ex_build_structured d a b fg c e show ?thesis by (intro conjI)
qed

section \<open>Rendering a page\<close>

lemma put_stores:
  assumes "1 \<le> lru_max c" "LRUCache_put c k v = Inr c'"
  shows "map_of (lru_d c') k = Some v \<and> lru_max c' = lru_max c"
proof -
  let ?N = "nat (lru_max c)"
  have mx: "0 \<le> lru_max c" using assms(1) by simp
  have c': "c' = c\<lparr>lru_d := lastN ?N (AList.delete k (lru_d c) @ [(k, v)])\<rparr>"
    using put_lastN [OF mx, of k v] assms(2) by simp
  have "length [(k, v)] \<le> ?N" using assms(1) by simp
  then have "lastN ?N (AList.delete k (lru_d c) @ [(k, v)]) =
             lastN (?N - length [(k, v)]) (AList.delete k (lru_d c)) @ [(k, v)]"
    by (rule lastN_append_short)
  moreover have "k \<notin> fst ` set (lastN (?N - length [(k, v)]) (AList.delete k (lru_d c)))"
    using set_lastN_subset [of "?N - length [(k, v)]" "AList.delete k (lru_d c)"]
          delete_notin_dom [of k "lru_d c"] by blast
  ultimately have "map_of (lastN ?N (AList.delete k (lru_d c) @ [(k, v)])) k = Some v"
    using map_of_mid [of k _ v "[]"] by simp
  then show ?thesis by (simp add: c')
qed

lemma via_png_result:
  assumes "via_png c key pix = Inr (img, c')"
  shows "LRUCache_put c key img = Inr c' \<and> (\<exists>data. img = FromData data)"
  using assms by (auto simp: via_png_def split: sum.splits)

lemma via_samples_result:
  assumes "via_samples c key pix fmt = Inr (img, c')"
  shows "LRUCache_put c key img = Inr c' \<and> (\<exists>s w h st. img = FromSamples s w h st fmt)"
  using assms by (auto simp: via_samples_def Let_def split: sum.splits)

lemma rasterize_result:
  assumes "rasterize m pg key safe = Inr (img, c')"
  shows "LRUCache_put (page_pix_cache m) key img = Inr c' \<and> (\<forall>w h t. img \<noteq> Tile w h t)"
proof -
  let ?c = "page_pix_cache m"
  have png: "LRUCache_put ?c key img = Inr c' \<and> (\<forall>w h t. img \<noteq> Tile w h t)"
    if "via_png ?c key pix = Inr (img, c')" for pix
    using via_png_result [OF that] by auto
  have smp: "LRUCache_put ?c key img = Inr c' \<and> (\<forall>w h t. img \<noteq> Tile w h t)"
    if "via_samples ?c key pix fmt = Inr (img, c')" for pix fmt
    using via_samples_result [OF that] by auto
  define scale where "scale = min (max (real_of_int (dpi m) / 72) (1 / 2)) (3::real)"
  from assms obtain pix0 where p0: "p_get_pixmap pg scale = Inr pix0"
    unfolding rasterize_def Let_def scale_def by (cases "p_get_pixmap pg (min (max (real_of_int (dpi m) / 72) (1 / 2)) 3)") simp_all
  define second where "second = (if pm_width pix0 > 6000 \<or> pm_height pix0 > 8000 then
                      (let shrink = max (real_of_int (pm_width pix0) / 3000)
                                        (real_of_int (pm_height pix0) / 4000)
                       in p_get_pixmap pg (scale / shrink))
                    else Inr pix0)"
  have r: "rasterize m pg key safe =
      (case second of
                Inl e \<Rightarrow> Inl e
              | Inr pix \<Rightarrow>
                  if safe then via_png ?c key pix
                  else if pm_n pix = 1 then via_samples ?c key pix Format_Grayscale8
                  else if pm_n pix = 3 then via_samples ?c key pix Format_RGB888
                  else if pm_n pix = 4 then via_samples ?c key pix Format_RGBA8888
                  else via_png ?c key pix)"
    unfolding rasterize_def second_def scale_def [symmetric] Let_def p0 by simp
  from assms r obtain pix where pix: "second = Inr pix" by (cases second) simp_all
  from assms show ?thesis
    unfolding r pix using png [of pix] smp [of pix] by (simp split: if_splits)
qed

lemma render_page_absent:
  "doc m = None \<or> pno < 0 \<or> page_count m \<le> pno \<Longrightarrow> render_page m pno safe = (Inr None, m)"
  unfolding render_page_def by (simp add: not_le [symmetric])

lemma render_page_hit:
  assumes "doc m \<noteq> None" "0 \<le> pno" "pno < page_count m"
    and "map_of (lru_d (page_pix_cache m)) (page_key_of m pno safe) = Some img"
  shows "render_page m pno safe =
         (Inr (Some img),
          m\<lparr>page_pix_cache := (page_pix_cache m)
               \<lparr>lru_d := AList.delete (page_key_of m pno safe) (lru_d (page_pix_cache m)) @
                          [(page_key_of m pno safe, img)]\<rparr>\<rparr>)"
proof -
  have c: "\<not> (doc m = None \<or> pno < 0 \<or> pno \<ge> page_count m)" using assms(1-3) by simp
  show ?thesis
    unfolding render_page_def Let_def get_hit [OF assms(4)] using c by simp
qed

lemma render_page_miss:
  assumes "doc m = Some pgs" "page_count m = int (length pgs)" "0 \<le> pno" "pno < page_count m"
    and "map_of (lru_d (page_pix_cache m)) (page_key_of m pno safe) = None"
  shows "render_page m pno safe =
         (case rasterize m (pgs ! nat pno) (page_key_of m pno safe) safe of
            Inr (img, c2) \<Rightarrow> (Inr (Some img), m\<lparr>page_pix_cache := c2\<rparr>)
          | Inl e \<Rightarrow> (Inr (Some (placeholder pno)), m))"
proof -
  have c: "\<not> (doc m = None \<or> pno < 0 \<or> pno \<ge> page_count m)" using assms(1,3,4) by simp
  have g: "doc_getitem (doc m) (nat pno) = Inr (pgs ! nat pno)"
    using assms(1-4) by (simp add: doc_getitem_def)
  have same: "m\<lparr>page_pix_cache := page_pix_cache m\<rparr> = m" by simp
  show ?thesis
    unfolding render_page_def Let_def get_miss [OF assms(5)] using c
    by (simp add: same g split: sum.splits prod.splits)
qed

text \<open>
  Claim C6. On a model whose page count is that of its document (what \<open>open\<close>
  establishes), \<open>render_page\<close> never raises. With no open document or a page index
  outside \<open>[0, page_count)\<close> it returns absent. For an in-range index on an open document
  it returns an image; when the key is not cached and anything in the rasterization
  pipeline raises, that image is the placeholder: a 320 by 200 tile whose text is
  \<^verbatim>\<open>Render failed p\<close> followed by the 1-based page number.
\<close>

theorem render_page_never_raises:
  assumes "dm_inv m"
  shows "\<exists>r. fst (render_page m pno safe) = Inr r \<and>
           (doc m = None \<or> pno < 0 \<or> page_count m \<le> pno \<longrightarrow> r = None) \<and>
           (doc m \<noteq> None \<and> 0 \<le> pno \<and> pno < page_count m \<longrightarrow>
              r \<noteq> None \<and>
              (\<forall>pgs e. doc m = Some pgs \<and>
                 fst (LRUCache_get (page_pix_cache m) (page_key_of m pno safe)) = None \<and>
                 rasterize m (pgs ! nat pno) (page_key_of m pno safe) safe = Inl e \<longrightarrow>
                 r = Some (Tile 320 200 (lit ''Render failed p'' @ str_int (pno + 1)))))"
proof (cases "doc m = None \<or> pno < 0 \<or> page_count m \<le> pno")
  case True
  from render_page_absent [OF True] have "fst (render_page m pno safe) = Inr None" by simp
  with True show ?thesis by auto
next
  case False
  then obtain pgs where pgs: "doc m = Some pgs" and r: "0 \<le> pno" "pno < page_count m" by auto
  have pc: "page_count m = int (length pgs)" using assms pgs by (simp add: dm_inv_def)
  let ?key = "page_key_of m pno safe"
  show ?thesis
  proof (cases "map_of (lru_d (page_pix_cache m)) ?key")
    case None
    note miss = render_page_miss [OF pgs pc r None]
    show ?thesis
    proof (cases "rasterize m (pgs ! nat pno) ?key safe")
      case (Inl e)
      with miss have "fst (render_page m pno safe) = Inr (Some (placeholder pno))" by simp
      then show ?thesis using pgs r by (simp add: placeholder_def)
    next
      case (Inr p)
      obtain img c2 where p: "p = (img, c2)" by (cases p)
      with miss Inr have "fst (render_page m pno safe) = Inr (Some img)" by simp
      then show ?thesis using pgs r Inr by simp
    qed
  next
    case (Some img)
    have dn: "doc m \<noteq> None" using pgs by simp
    from render_page_hit [OF dn r Some]
    have f: "fst (render_page m pno safe) = Inr (Some img)" by simp
    have "fst (LRUCache_get (page_pix_cache m) ?key) = Some img"
      using Some by (simp add: get_hit)
    with f show ?thesis using pgs r by simp
  qed
qed

lemma ex_dm_inv: "dm_inv (ex_model md)"
  by (simp add: dm_inv_def ex_model_def DocModel_init_def)

lemma ex_rasterize_fails:
  "rasterize (ex_model md) ex_page0 key safe = Inl DecoderError"
  by (simp add: rasterize_def ex_page0_def Let_def)

theorem render_page_never_raises_witness:
  "dm_inv (ex_model ''simple'') \<and>
   fst (render_page (ex_model ''simple'') 0 True) =
     Inr (Some (Tile 320 200 (lit ''Render failed p'' @ str_int (0 + 1)))) \<and>
   fst (render_page (ex_model ''simple'') 2 True) = Inr None"
proof -
  let ?m = "ex_model ''simple''"
  have d: "doc ?m = Some [ex_page0, ex_page1]" "page_count ?m = 2"
    by (simp_all add: ex_model_def)
  have miss: "fst (LRUCache_get (page_pix_cache ?m) (page_key_of ?m 0 True)) = None"
    by (simp add: ex_model_def DocModel_init_def LRUCache_init_def get_miss)
  have fail: "rasterize ?m ([ex_page0, ex_page1] ! nat 0) (page_key_of ?m 0 True) True =
              Inl DecoderError"
    by (simp add: ex_rasterize_fails)
  from render_page_never_raises [OF ex_dm_inv, of "''simple''" 0 True]
  obtain r where r: "fst (render_page ?m 0 True) = Inr r"
    "doc ?m \<noteq> None \<and> 0 \<le> (0::int) \<and> 0 < page_count ?m \<longrightarrow>
       r \<noteq> None \<and>
       (\<forall>pgs e. doc ?m = Some pgs \<and>
          fst (LRUCache_get (page_pix_cache ?m) (page_key_of ?m 0 True)) = None \<and>
          rasterize ?m (pgs ! nat 0) (page_key_of ?m 0 True) True = Inl e \<longrightarrow>
          r = Some (Tile 320 200 (lit ''Render failed p'' @ str_int (0 + 1))))"
    by blast
  from r(2) d miss fail have "r = Some (Tile 320 200 (lit ''Render failed p'' @ str_int (0 + 1)))"
    by simp
  with r(1) have a: "fst (render_page ?m 0 True) =
     Inr (Some (Tile 320 200 (lit ''Render failed p'' @ str_int (0 + 1))))" by simp
  from render_page_never_raises [OF ex_dm_inv, of "''simple''" 2 True]
  obtain r2 where r2: "fst (render_page ?m 2 True) = Inr r2"
    "doc ?m = None \<or> (2::int) < 0 \<or> page_count ?m \<le> 2 \<longrightarrow> r2 = None"
    by blast
  from r2 d have b: "fst (render_page ?m 2 True) = Inr None" by simp
  from ex_dm_inv a b show ?thesis by blast
qed


lemma render_page_cache_cases:
  assumes inv: "dm_inv m" and mx: "1 \<le> lru_max (page_pix_cache m)"
    and d: "doc m = Some pgs" and r: "0 \<le> pno" "pno < page_count m"
  shows
    "(\<forall>img. map_of (lru_d (page_pix_cache m)) (page_key_of m pno safe) = Some img \<longrightarrow>
        fst (render_page m pno safe) = Inr (Some img) \<and>
        map_of (lru_d (page_pix_cache (snd (render_page m pno safe)))) (page_key_of m pno safe)
          = Some img) \<and>
     (map_of (lru_d (page_pix_cache m)) (page_key_of m pno safe) = None \<longrightarrow>
        (\<forall>img c2. rasterize m (pgs ! nat pno) (page_key_of m pno safe) safe = Inr (img, c2) \<longrightarrow>
           fst (render_page m pno safe) = Inr (Some img) \<and>
           (\<forall>w h t. img \<noteq> Tile w h t) \<and>
           map_of (lru_d (page_pix_cache (snd (render_page m pno safe))))
                  (page_key_of m pno safe) = Some img \<and>
           fst (render_page (snd (render_page m pno safe)) pno safe) = Inr (Some img)) \<and>
        (\<forall>e. rasterize m (pgs ! nat pno) (page_key_of m pno safe) safe = Inl e \<longrightarrow>
           render_page m pno safe = (Inr (Some (placeholder pno)), m) \<and>
           (\<forall>pgs' img c2.
              length pgs' = length pgs \<and>
              rasterize (m\<lparr>doc := Some pgs'\<rparr>) (pgs' ! nat pno) (page_key_of m pno safe) safe
                = Inr (img, c2) \<longrightarrow>
              fst (render_page (m\<lparr>doc := Some pgs'\<rparr>) pno safe) = Inr (Some img))))"
proof -
  let ?key = "page_key_of m pno safe"
  have pc: "page_count m = int (length pgs)" using inv d by (simp add: dm_inv_def)
  have dn: "doc m \<noteq> None" using d by simp
  have hit: "fst (render_page m pno safe) = Inr (Some img) \<and>
        map_of (lru_d (page_pix_cache (snd (render_page m pno safe)))) ?key = Some img"
    if "map_of (lru_d (page_pix_cache m)) ?key = Some img" for img
  proof -
    have "map_of (AList.delete ?key (lru_d (page_pix_cache m)) @ (?key, img) # []) ?key = Some img"
      by (rule map_of_mid) (rule delete_notin_dom)
    then show ?thesis unfolding render_page_hit [OF dn r that] by simp
  qed
  have ok: "fst (render_page m pno safe) = Inr (Some img) \<and>
           (\<forall>w h t. img \<noteq> Tile w h t) \<and>
           map_of (lru_d (page_pix_cache (snd (render_page m pno safe)))) ?key = Some img \<and>
           fst (render_page (snd (render_page m pno safe)) pno safe) = Inr (Some img)"
    if miss: "map_of (lru_d (page_pix_cache m)) ?key = None"
      and ras: "rasterize m (pgs ! nat pno) ?key safe = Inr (img, c2)" for img c2
  proof -
    let ?m' = "m\<lparr>page_pix_cache := c2\<rparr>"
    have rp: "render_page m pno safe = (Inr (Some img), ?m')"
      unfolding render_page_miss [OF d pc r miss] ras by simp
    from rasterize_result [OF ras]
    have put: "LRUCache_put (page_pix_cache m) ?key img = Inr c2"
      and nt: "\<forall>w h t. img \<noteq> Tile w h t" by simp_all
    from put_stores [OF mx put] have st: "map_of (lru_d c2) ?key = Some img" by simp
    have k': "page_key_of ?m' pno safe = ?key" by (simp add: page_key_of_def)
    have "doc ?m' \<noteq> None" "pno < page_count ?m'" using d r by simp_all
    from render_page_hit [OF this(1) r(1) this(2), of safe img] st
    have "fst (render_page ?m' pno safe) = Inr (Some img)" by (simp add: k')
    with rp nt st show ?thesis by simp
  qed
  have bad: "render_page m pno safe = (Inr (Some (placeholder pno)), m) \<and>
           (\<forall>pgs' img c2.
              length pgs' = length pgs \<and>
              rasterize (m\<lparr>doc := Some pgs'\<rparr>) (pgs' ! nat pno) ?key safe = Inr (img, c2) \<longrightarrow>
              fst (render_page (m\<lparr>doc := Some pgs'\<rparr>) pno safe) = Inr (Some img))"
    if miss: "map_of (lru_d (page_pix_cache m)) ?key = None"
      and ras: "rasterize m (pgs ! nat pno) ?key safe = Inl e" for e
  proof -
    have rp: "render_page m pno safe = (Inr (Some (placeholder pno)), m)"
      unfolding render_page_miss [OF d pc r miss] ras by simp
    have retry: "fst (render_page (m\<lparr>doc := Some pgs'\<rparr>) pno safe) = Inr (Some img)"
      if l: "length pgs' = length pgs"
        and ras': "rasterize (m\<lparr>doc := Some pgs'\<rparr>) (pgs' ! nat pno) ?key safe = Inr (img, c2)"
      for pgs' img c2
    proof -
      let ?m2 = "m\<lparr>doc := Some pgs'\<rparr>"
      have k2: "page_key_of ?m2 pno safe = ?key" by (simp add: page_key_of_def)
      have a: "doc ?m2 = Some pgs'" "page_count ?m2 = int (length pgs')" "pno < page_count ?m2"
        using pc l r by simp_all
      have m2: "map_of (lru_d (page_pix_cache ?m2)) (page_key_of ?m2 pno safe) = None"
        using miss by (simp add: k2)
      show ?thesis
        unfolding render_page_miss [OF a(1,2) r(1) a(3) m2] k2 ras' by simp
    qed
    with rp show ?thesis by blast
  qed
  from hit ok bad show ?thesis by blast
qed

text \<open>
  Claim C7. Take a model as \<open>open\<close> leaves it, with a cache of capacity at least 1 (it
  is 20), and an in-range page \<open>pno\<close> of its open document. The cache key of a request
  is the triple of the page index, the model's resolution \<open>dpi\<close> and the decode path
  (1 for the safe path, 0 for the fast one). An image cached under that key is
  returned and stays cached under it. On a miss, a successful rasterization returns
  an image that is not the placeholder and is stored under that key in the model the
  call leaves behind, so the next call returns it from the cache. On a miss with a
  failing rasterization the placeholder is returned and the model, cache included, is
  left exactly as it was: the key stays absent, and a later call, when the decoder's
  answer for the page has become a success, returns the newly rasterized image.
\<close>

theorem render_page_caches_success_only:
  assumes inv: "dm_inv m" and mx: "1 \<le> lru_max (page_pix_cache m)"
    and d: "doc m = Some pgs" and r: "0 \<le> pno" "pno < page_count m"
  shows
    "(\<forall>img. map_of (lru_d (page_pix_cache m)) (pno, dpi m, (if safe then 1 else 0)) = Some img \<longrightarrow>
        fst (render_page m pno safe) = Inr (Some img) \<and>
        map_of (lru_d (page_pix_cache (snd (render_page m pno safe)))) (pno, dpi m, (if safe then 1 else 0))
          = Some img) \<and>
     (map_of (lru_d (page_pix_cache m)) (pno, dpi m, (if safe then 1 else 0)) = None \<longrightarrow>
        (\<forall>img c2. rasterize m (pgs ! nat pno) (pno, dpi m, (if safe then 1 else 0)) safe = Inr (img, c2) \<longrightarrow>
           fst (render_page m pno safe) = Inr (Some img) \<and>
           (\<forall>w h t. img \<noteq> Tile w h t) \<and>
           map_of (lru_d (page_pix_cache (snd (render_page m pno safe))))
                  (pno, dpi m, (if safe then 1 else 0)) = Some img \<and>
           fst (render_page (snd (render_page m pno safe)) pno safe) = Inr (Some img)) \<and>
        (\<forall>e. rasterize m (pgs ! nat pno) (pno, dpi m, (if safe then 1 else 0)) safe = Inl e \<longrightarrow>
           render_page m pno safe = (Inr (Some (placeholder pno)), m) \<and>
           (\<forall>pgs' img c2.
              length pgs' = length pgs \<and>
              rasterize (m\<lparr>doc := Some pgs'\<rparr>) (pgs' ! nat pno) (pno, dpi m, (if safe then 1 else 0)) safe
                = Inr (img, c2) \<longrightarrow>
              fst (render_page (m\<lparr>doc := Some pgs'\<rparr>) pno safe) = Inr (Some img))))"
  using render_page_cache_cases [OF assms, of safe] unfolding page_key_of_def .

lemma ex_cache_empty: "lru_d (page_pix_cache (ex_model md)) = [] \<and> lru_max (page_pix_cache (ex_model md)) = 20"
  by (simp add: ex_model_def DocModel_init_def LRUCache_init_def)

lemma ex_rasterize_ok:
  "rasterize (ex_model md) ex_page1 key True =
   Inr (FromData [137, 80, 78, 71], \<lparr>lru_max = 20, lru_d = [(key, FromData [137, 80, 78, 71])]\<rparr>)"
proof -
  have mx: "0 \<le> lru_max (page_pix_cache (ex_model md))" by (simp add: ex_cache_empty)
  have "LRUCache_put (page_pix_cache (ex_model md)) key (FromData [137, 80, 78, 71]) =
        Inr \<lparr>lru_max = 20, lru_d = [(key, FromData [137, 80, 78, 71])]\<rparr>"
    unfolding put_lastN [OF mx]
    by (simp add: ex_model_def DocModel_init_def LRUCache_init_def lastN_def)
  then show ?thesis
    by (simp add: rasterize_def ex_page1_def ex_pixmap_def Let_def via_png_def)
qed

theorem render_page_caches_success_only_witness:
  "render_page (ex_model ''simple'') 0 True = (Inr (Some (placeholder 0)), ex_model ''simple'') \<and>
   fst (render_page (ex_model ''simple'') 1 True) = Inr (Some (FromData [137, 80, 78, 71])) \<and>
   map_of (lru_d (page_pix_cache (snd (render_page (ex_model ''simple'') 1 True)))) (1, 110, 1)
     = Some (FromData [137, 80, 78, 71]) \<and>
   map_of (lru_d (page_pix_cache (snd (render_page (ex_model ''simple'') 1 True)))) (0, 110, 1)
     = None \<and>
   fst (render_page (snd (render_page (ex_model ''simple'') 1 True)) 1 True) =
     Inr (Some (FromData [137, 80, 78, 71]))"
proof -
  let ?m = "ex_model ''simple''"
  let ?k0 = "(0::int, dpi ?m, (if True then 1 else 0::int))"
  let ?k1 = "(1::int, dpi ?m, (if True then 1 else 0::int))"
  have mx: "1 \<le> lru_max (page_pix_cache ?m)" by (simp add: ex_cache_empty)
  have d: "doc ?m = Some [ex_page0, ex_page1]" by (simp add: ex_model_def)
  have r0: "(0::int) \<le> 0" "0 < page_count ?m" and r1: "(0::int) \<le> 1" "1 < page_count ?m"
    by (simp_all add: ex_model_def)
  have k1: "?k1 = (1, 110, 1)" by (simp add: ex_model_def DocModel_init_def)
  have miss: "map_of (lru_d (page_pix_cache ?m)) k = None" for k
    by (simp add: ex_cache_empty)
  have fail: "rasterize ?m ([ex_page0, ex_page1] ! nat 0) ?k0 True = Inl DecoderError"
    by (simp add: ex_rasterize_fails)
  have good: "rasterize ?m ([ex_page0, ex_page1] ! nat 1) ?k1 True =
              Inr (FromData [137, 80, 78, 71],
                   \<lparr>lru_max = 20, lru_d = [(?k1, FromData [137, 80, 78, 71])]\<rparr>)"
    using ex_rasterize_ok [of "''simple''" ?k1] by simp
  from render_page_caches_success_only [OF ex_dm_inv mx d r0, of True] miss [of ?k0] fail
  have a: "render_page ?m 0 True = (Inr (Some (placeholder 0)), ?m)" by blast
  from render_page_caches_success_only [OF ex_dm_inv mx d r1, of True] miss [of ?k1] good
  have b: "fst (render_page ?m 1 True) = Inr (Some (FromData [137, 80, 78, 71]))"
    and c: "map_of (lru_d (page_pix_cache (snd (render_page ?m 1 True)))) ?k1
             = Some (FromData [137, 80, 78, 71])"
    and e: "fst (render_page (snd (render_page ?m 1 True)) 1 True) =
             Inr (Some (FromData [137, 80, 78, 71]))"
    by blast+
  have rp: "render_page ?m 1 True =
      (Inr (Some (FromData [137, 80, 78, 71])),
       ?m\<lparr>page_pix_cache := \<lparr>lru_max = 20, lru_d = [(?k1, FromData [137, 80, 78, 71])]\<rparr>\<rparr>)"
    using render_page_miss [OF d _ r1 miss [of "page_key_of ?m 1 True"]] good
    by (simp add: page_key_of_def ex_model_def)
  have f: "map_of (lru_d (page_pix_cache (snd (render_page ?m 1 True)))) (0, 110, 1) = None"
    unfolding rp by (simp add: ex_model_def DocModel_init_def)
  from a b c [unfolded k1] f e show ?thesis by (intro conjI)
qed

section \<open>The view and its scheduler\<close>

lemma render_page_keeps:
  assumes "dm_inv m"
  shows "\<exists>c. snd (render_page m pno safe) = m\<lparr>page_pix_cache := c\<rparr>"
proof (cases "doc m = None \<or> pno < 0 \<or> page_count m \<le> pno")
  case True
  from render_page_absent [OF True] have "snd (render_page m pno safe) = m\<lparr>page_pix_cache := page_pix_cache m\<rparr>"
    by simp
  then show ?thesis by (rule exI)
next
  case False
  then obtain pgs where pgs: "doc m = Some pgs" and r: "0 \<le> pno" "pno < page_count m" by auto
  have pc: "page_count m = int (length pgs)" using assms pgs by (simp add: dm_inv_def)
  let ?key = "page_key_of m pno safe"
  show ?thesis
  proof (cases "map_of (lru_d (page_pix_cache m)) ?key")
    case None
    note miss = render_page_miss [OF pgs pc r None]
    show ?thesis
    proof (cases "rasterize m (pgs ! nat pno) ?key safe")
      case (Inl e)
      with miss have "snd (render_page m pno safe) = m\<lparr>page_pix_cache := page_pix_cache m\<rparr>" by simp
      then show ?thesis by (rule exI)
    next
      case (Inr p)
      obtain img c2 where p: "p = (img, c2)" by (cases p)
      with miss Inr have "snd (render_page m pno safe) = m\<lparr>page_pix_cache := c2\<rparr>" by simp
      then show ?thesis by (rule exI)
    qed
  next
    case (Some img)
    have dn: "doc m \<noteq> None" using pgs by simp
    from render_page_hit [OF dn r Some]
    have "snd (render_page m pno safe) =
          m\<lparr>page_pix_cache := (page_pix_cache m)
               \<lparr>lru_d := AList.delete ?key (lru_d (page_pix_cache m)) @ [(?key, img)]\<rparr>\<rparr>"
      by simp
    then show ?thesis by (rule exI)
  qed
qed

lemma render_single_page_raw_keeps:
  assumes "model v = Some m" "dm_inv m"
  shows "\<exists>r c. render_single_page_raw v pno = (r, v\<lparr>model := Some (m\<lparr>page_pix_cache := c\<rparr>)\<rparr>)"
proof -
  obtain res m' where rp: "render_page m pno (safe_png v) = (res, m')"
    by (cases "render_page m pno (safe_png v)")
  from render_page_keeps [OF assms(2), of pno "safe_png v"] rp
  obtain c where c: "m' = m\<lparr>page_pix_cache := c\<rparr>" by auto
  have "render_single_page_raw v pno =
        ((case res of Inl e \<Rightarrow> None | Inr r \<Rightarrow> r), v\<lparr>model := Some (m\<lparr>page_pix_cache := c\<rparr>)\<rparr>)"
    using assms(1) rp c by (cases res) (simp_all add: render_single_page_raw_def)
  then show ?thesis by blast
qed

lemma dm_inv_cache: "dm_inv (m\<lparr>page_pix_cache := c\<rparr>) = dm_inv m"
  by (cases "doc m") (simp_all add: dm_inv_def)

lemma list_getitem_nat: "i < length xs \<Longrightarrow> list_getitem xs (int i) = Inr (xs ! i)"
  by (simp add: list_getitem_def)

lemma unrendered_single:
  "unrendered v [p] = (if original_img (page_items v ! nat p) = None then [p] else [])"
  by (simp add: unrendered_def)

lemma tick_running:
  assumes run: "running v P" and idx: "all_idx v = int i" and i: "i < P"
  shows "\<exists>v'. tick v = Inr (unrendered v [int i], v') \<and> running v' P \<and>
              all_idx v' = int (Suc i) \<and>
              (\<forall>j<P. j \<noteq> i \<longrightarrow> page_items v' ! j = page_items v ! j)"
proof -
  from run obtain m where m: "model v = Some m" "dm_inv m" "page_count m = int P"
    and fl: "timer_active v" "all_active v" and len: "length (page_items v) = P"
    by (auto simp: running_def)
  have gi: "list_getitem (page_items v) (all_idx v) = Inr (page_items v ! i)"
    using idx i len by (simp add: list_getitem_nat)
  have lt: "\<not> page_count m \<le> all_idx v" using idx i m(3) by simp
  show ?thesis
  proof (cases "original_img (page_items v ! i) = None")
    case False
    let ?v' = "v\<lparr>all_idx := all_idx v + 1\<rparr>"
    have "tick v = Inr ([], ?v')"
      using fl m(1) lt gi False by (auto simp: tick_def render_all_step_def Let_def)
    moreover have "unrendered v [int i] = []" using False by (simp add: unrendered_single)
    moreover have "running ?v' P" using run by (simp add: running_def)
    moreover have "all_idx ?v' = int (Suc i)" using idx by simp
    ultimately show ?thesis by auto
  next
    case True
    from render_single_page_raw_keeps [OF m(1,2), of "all_idx v"]
    obtain r c where rs: "render_single_page_raw v (all_idx v) =
        (r, v\<lparr>model := Some (m\<lparr>page_pix_cache := c\<rparr>)\<rparr>)"
      by blast
    let ?v1 = "v\<lparr>model := Some (m\<lparr>page_pix_cache := c\<rparr>)\<rparr>"
    let ?v2 = "(if r \<noteq> None then set_original_img ?v1 (all_idx v) r else ?v1)"
    let ?v' = "?v2\<lparr>all_idx := all_idx ?v2 + 1\<rparr>"
    have t: "tick v = Inr ([all_idx v], ?v')"
      using fl m(1) lt gi True rs by (simp add: tick_def render_all_step_def Let_def)
    have u: "unrendered v [int i] = [all_idx v]" using True idx by (simp add: unrendered_single)
    have items: "length (page_items ?v') = P \<and>
                 (\<forall>j<P. j \<noteq> i \<longrightarrow> page_items ?v' ! j = page_items v ! j)"
      using len idx by (simp add: set_original_img_def)
    have "dm_inv (m\<lparr>page_pix_cache := c\<rparr>)" using m(2) by (simp add: dm_inv_cache)
    then have "\<exists>m'. model ?v' = Some m' \<and> dm_inv m' \<and> page_count m' = int P"
      using m(3) by (simp add: set_original_img_def)
    moreover have "timer_active ?v' \<and> all_active ?v'"
      using fl by (simp add: set_original_img_def)
    ultimately have "running ?v' P" using items by (simp add: running_def)
    moreover have "all_idx ?v' = int (Suc i)" using idx by (simp add: set_original_img_def)
    ultimately show ?thesis using t u items by auto
  qed
qed

lemma unrendered_append: "unrendered v (xs @ ys) = unrendered v xs @ unrendered v ys"
  by (simp add: unrendered_def)

lemma unrendered_cong:
  assumes "\<forall>p\<in>set xs. page_items v' ! nat p = page_items v ! nat p"
  shows "unrendered v' xs = unrendered v xs"
  unfolding unrendered_def using assms by (intro filter_cong) auto

lemma ticks_running:
  assumes "running v P" "all_idx v = int i" "i + k \<le> P"
  shows "\<exists>v'. ticks k v = Inr (unrendered v (map int [i..<i + k]), v') \<and> running v' P \<and>
              all_idx v' = int (i + k) \<and>
              (\<forall>j<P. j < i \<or> i + k \<le> j \<longrightarrow> page_items v' ! j = page_items v ! j)"
  using assms
proof (induction k arbitrary: v i)
  case 0
  then show ?case by (simp add: unrendered_def)
next
  case (Suc k)
  have i: "i < P" using Suc.prems(3) by simp
  from tick_running [OF Suc.prems(1,2) i]
  obtain v1 where v1: "tick v = Inr (unrendered v [int i], v1)" "running v1 P"
      "all_idx v1 = int (Suc i)" "\<forall>j<P. j \<noteq> i \<longrightarrow> page_items v1 ! j = page_items v ! j"
    by blast
  have k: "Suc i + k \<le> P" using Suc.prems(3) by simp
  from Suc.IH [OF v1(2,3) k]
  obtain v' where v': "ticks k v1 = Inr (unrendered v1 (map int [Suc i..<Suc i + k]), v')"
      "running v' P" "all_idx v' = int (Suc i + k)"
      "\<forall>j<P. j < Suc i \<or> Suc i + k \<le> j \<longrightarrow> page_items v' ! j = page_items v1 ! j"
    by blast
  have "\<forall>p\<in>set (map int [Suc i..<Suc i + k]). page_items v1 ! nat p = page_items v ! nat p"
    using v1(4) k by auto
  then have same: "unrendered v1 (map int [Suc i..<Suc i + k]) = unrendered v (map int [Suc i..<Suc i + k])"
    by (rule unrendered_cong)
  have "[i..<i + Suc k] = i # [Suc i..<Suc i + k]"
    by (simp add: upt_conv_Cons)
  then have calls: "unrendered v [int i] @ unrendered v (map int [Suc i..<Suc i + k]) =
                    unrendered v (map int [i..<i + Suc k])"
    by (simp add: unrendered_def)
  have t: "ticks (Suc k) v = Inr (unrendered v (map int [i..<i + Suc k]), v')"
    using v1(1) v'(1) same calls by simp
  have keep: "\<forall>j<P. j < i \<or> i + Suc k \<le> j \<longrightarrow> page_items v' ! j = page_items v ! j"
    using v1(4) v'(4) by auto
  from t v'(2,3) keep show ?case by auto
qed

lemma tick_stops:
  assumes "running v P" "all_idx v = int P"
  shows "tick v = Inr ([], v\<lparr>timer_active := False, all_active := False\<rparr>)"
  using assms by (auto simp: running_def tick_def render_all_step_def)

lemma render_all_pages_starts:
  assumes inv: "view_inv v" and m: "model v = Some m" and idle: "\<not> all_active v"
  shows "running (render_all_pages v) (nat (page_count m)) \<and> all_idx (render_all_pages v) = 0 \<and>
         page_items (render_all_pages v) = page_items v"
  using assms by (auto simp: view_inv_def render_all_pages_def running_def)

lemma scheduler_run:
  assumes inv: "view_inv v" and m: "model v = Some m" and idle: "\<not> all_active v"
  shows "\<exists>v'. ticks (nat (page_count m)) (render_all_pages v) =
                Inr (unrendered v (map int [0..<nat (page_count m)]), v') \<and>
              all_idx v' = page_count m \<and> all_active v' \<and> timer_active v' \<and>
              (\<exists>v''. tick v' = Inr ([], v'') \<and> \<not> all_active v'' \<and> \<not> timer_active v'' \<and>
                     page_items v'' = page_items v')"
proof -
  let ?P = "nat (page_count m)"
  let ?v0 = "render_all_pages v"
  have pc: "0 \<le> page_count m" using inv m by (simp add: view_inv_def)
  from render_all_pages_starts [OF assms]
  have r0: "running ?v0 ?P" and i0: "all_idx ?v0 = int 0" and it: "page_items ?v0 = page_items v"
    by simp_all
  have k: "0 + ?P \<le> ?P" by simp
  from ticks_running [OF r0 i0 k]
  obtain v' where v': "ticks ?P ?v0 = Inr (unrendered ?v0 (map int [0..<0 + ?P]), v')"
      "running v' ?P" "all_idx v' = int (0 + ?P)"
    by blast
  have u: "unrendered ?v0 (map int [0..<0 + ?P]) = unrendered v (map int [0..<?P])"
    by (simp add: unrendered_def it)
  have idx: "all_idx v' = page_count m" using v'(3) pc by simp
  have fl: "all_active v' \<and> timer_active v'" using v'(2) by (simp add: running_def)
  have "all_idx v' = int ?P" using v'(3) by simp
  from tick_stops [OF v'(2) this]
  have "tick v' = Inr ([], v'\<lparr>timer_active := False, all_active := False\<rparr>)" .
  then have "\<exists>v''. tick v' = Inr ([], v'') \<and> \<not> all_active v'' \<and> \<not> timer_active v'' \<and>
                     page_items v'' = page_items v'"
    by simp
  with v'(1) u idx fl show ?thesis by auto
qed

lemma ex_page_count: "page_count (ex_model md) = 2"
  by (simp add: ex_model_def)

lemma ex_view_fields:
  "model ex_view = Some (ex_model ''simple'')"
  "page_items ex_view = [\<lparr>original_img = None, item_height = 64\<rparr>,
                         \<lparr>original_img = None, item_height = 64\<rparr>]"
  "all_active ex_view = False" "timer_active ex_view = False"
  "vp_top ex_view = 0" "vp_bot ex_view = 600" "spacing ex_view = 12" "safe_png ex_view = True"
  by (simp_all add: ex_view_def set_model_def ex_view0_def py_range_def ex_page_count
                    PageItem_init_def Let_def upt_rec)

lemma ex_view_inv: "view_inv ex_view"
  by (simp add: view_inv_def ex_view_fields ex_dm_inv ex_page_count)

lemma ex_view_unrendered: "unrendered ex_view (map int [0..<nat 2]) = [0, 1]"
  by (simp add: unrendered_def ex_view_fields upt_rec)

text \<open>
  Claim C3, as amended. Let the view hold a model of \<open>P\<close> pages with one widget per page,
  the scheduler being Idle. After \<open>startAll\<close>, \<open>P\<close> timer ticks raise nothing and hand to
  the renderer exactly the pages of \<open>0, ..., P - 1\<close> that had no image, each once and in
  page order; the cursor then stands at \<open>P\<close>, one step per tick, and the scheduler is
  still Running (active flag set, timer armed). The tick after these, the \<open>P + 1\<close>-th,
  renders nothing, stops the timer and clears the active flag: the scheduler is Idle.
\<close>

theorem scheduler_drains_on_next_tick:
  assumes "view_inv v" and "model v = Some m" and "\<not> all_active v"
  shows "\<exists>v'. ticks (nat (page_count m)) (render_all_pages v) =
                Inr (unrendered v (map int [0..<nat (page_count m)]), v') \<and>
              all_idx v' = page_count m \<and> all_active v' \<and> timer_active v' \<and>
              (\<exists>v''. tick v' = Inr ([], v'') \<and> \<not> all_active v'' \<and> \<not> timer_active v'' \<and>
                     page_items v'' = page_items v')"
  using scheduler_run [OF assms] .

theorem scheduler_drains_on_next_tick_witness:
  "view_inv ex_view \<and> model ex_view = Some (ex_model ''simple'') \<and> all_active ex_view = False \<and>
   (\<exists>v'. ticks 2 (render_all_pages ex_view) = Inr ([0, 1], v') \<and>
         all_idx v' = 2 \<and> all_active v' \<and> timer_active v' \<and>
         (\<exists>v''. tick v' = Inr ([], v'') \<and> all_active v'' = False \<and> timer_active v'' = False))"
proof -
  have idle: "\<not> all_active ex_view" by (simp add: ex_view_fields)
  from scheduler_drains_on_next_tick [OF ex_view_inv ex_view_fields(1) idle]
  obtain v' v'' where "ticks (nat (page_count (ex_model ''simple''))) (render_all_pages ex_view) =
        Inr (unrendered ex_view (map int [0..<nat (page_count (ex_model ''simple''))]), v')"
      "all_idx v' = page_count (ex_model ''simple'')" "all_active v'" "timer_active v'"
      "tick v' = Inr ([], v'')" "\<not> all_active v''" "\<not> timer_active v''"
    by blast
  then have "ticks 2 (render_all_pages ex_view) = Inr ([0, 1], v') \<and>
         all_idx v' = 2 \<and> all_active v' \<and> timer_active v' \<and>
         tick v' = Inr ([], v'') \<and> all_active v'' = False \<and> timer_active v'' = False"
    using ex_view_unrendered by (simp add: ex_page_count)
  then show ?thesis using ex_view_inv ex_view_fields(1,3) by blast
qed

text \<open>
  Claim C3, as stated, fails: on the two-page document, exactly two ticks after
  \<open>startAll\<close> both pages have been handed to the renderer and the cursor is 2, but the
  active flag is still set and the timer still armed.
\<close>

theorem scheduler_still_running_counterexample:
  "page_count (ex_model ''simple'') = 2 \<and> model ex_view = Some (ex_model ''simple'') \<and>
   scheduler_state (ticks 2 (render_all_pages ex_view)) = Some ([0, 1], 2, True, True)"
proof -
  have idle: "\<not> all_active ex_view" by (simp add: ex_view_fields)
  from scheduler_run [OF ex_view_inv ex_view_fields(1) idle]
  obtain v' where "ticks (nat (page_count (ex_model ''simple''))) (render_all_pages ex_view) =
        Inr (unrendered ex_view (map int [0..<nat (page_count (ex_model ''simple''))]), v')"
      "all_idx v' = page_count (ex_model ''simple'')" "all_active v'" "timer_active v'"
    by blast
  then have "ticks 2 (render_all_pages ex_view) = Inr ([0, 1], v') \<and>
         all_idx v' = 2 \<and> all_active v' \<and> timer_active v'"
    using ex_view_unrendered by (simp add: ex_page_count)
  then have "scheduler_state (ticks 2 (render_all_pages ex_view)) = Some ([0, 1], 2, True, True)"
    by (simp add: scheduler_state_def)
  with ex_page_count ex_view_fields(1) show ?thesis by blast
qed

lemma visible_loop_range:
  "p \<in> set (visible_loop tp bt sp i y items) \<Longrightarrow> i \<le> p \<and> p < i + int (length items)"
proof (induction items arbitrary: i y)
  case Nil
  then show ?case by simp
next
  case (Cons item items)
  let ?h = "(if item_height item \<noteq> 0 then item_height item else 120)"
  from Cons.prems have "p = i \<or> p \<in> set (visible_loop tp bt sp (i + 1) (y + ?h + sp) items)"
    by (auto simp: Let_def split: if_splits)
  then show ?case
  proof
    assume "p = i"
    then show ?thesis by simp
  next
    assume "p \<in> set (visible_loop tp bt sp (i + 1) (y + ?h + sp) items)"
    from Cons.IH [OF this] show ?thesis by simp
  qed
qed

lemma fold_min_in: "fold min rs (r::int) \<in> set (r # rs)"
proof (induction rs arbitrary: r)
  case Nil
  then show ?case by simp
next
  case (Cons a rs)
  have "fold min (a # rs) r = fold min rs (min a r)" by simp
  moreover have "fold min rs (min a r) \<in> set (min a r # rs)" by (rule Cons.IH)
  moreover have "min a r = a \<or> min a r = r" by (simp add: min_def)
  ultimately show ?case by auto
qed

lemma fold_max_in: "fold max rs (r::int) \<in> set (r # rs)"
proof (induction rs arbitrary: r)
  case Nil
  then show ?case by simp
next
  case (Cons a rs)
  have "fold max (a # rs) r = fold max rs (max a r)" by simp
  moreover have "fold max rs (max a r) \<in> set (max a r # rs)" by (rule Cons.IH)
  moreover have "max a r = a \<or> max a r = r" by (simp add: max_def)
  ultimately show ?case by auto
qed

lemma visible_range_valid:
  assumes "p \<in> set [fst (visible_range v)..snd (visible_range v)]"
  shows "0 \<le> p \<and> p < int (length (page_items v))"
proof (cases "page_items v = []")
  case True
  with assms show ?thesis by (simp add: visible_range_def)
next
  case False
  let ?rng = "visible_loop (vp_top v) (vp_bot v) (spacing v) 0 0 (page_items v)"
  show ?thesis
  proof (cases ?rng)
    case Nil
    with False have "visible_range v = (0, 0)" by (simp add: visible_range_def)
    with assms False show ?thesis by simp
  next
    case (Cons r rs)
    with False have vr: "visible_range v = (fold min rs r, fold max rs r)"
      by (simp add: visible_range_def)
    have "fold min rs r \<in> set ?rng" "fold max rs r \<in> set ?rng"
      using fold_min_in [of rs r] fold_max_in [of rs r] Cons by simp_all
    then have "0 \<le> fold min rs r" "fold max rs r < int (length (page_items v))"
      using visible_loop_range [of _ "vp_top v" "vp_bot v" "spacing v" 0 0 "page_items v"]
      by auto
    with assms vr show ?thesis by simp
  qed
qed

lemma same_except_refl: "same_except v v []"
proof -
  have "\<exists>c. m = m\<lparr>page_pix_cache := c\<rparr>" for m :: DocModel
    by (rule exI [of _ "page_pix_cache m"]) simp
  then show ?thesis by (cases "model v") (simp_all add: same_except_def)
qed

lemma same_except_trans:
  assumes "same_except a b xs" "same_except b c ys"
  shows "same_except a c (xs @ ys)"
proof (cases "model a")
  case None
  with assms show ?thesis by (auto simp: same_except_def)
next
  case (Some m)
  with assms(1) obtain c1 where b: "model b = Some (m\<lparr>page_pix_cache := c1\<rparr>)"
    by (auto simp: same_except_def)
  with assms(2) obtain c2 where "model c = Some (m\<lparr>page_pix_cache := c1\<rparr>\<lparr>page_pix_cache := c2\<rparr>)"
    by (auto simp: same_except_def)
  then have "model c = Some (m\<lparr>page_pix_cache := c2\<rparr>)" by simp
  then have "\<exists>c'. model c = Some (m\<lparr>page_pix_cache := c'\<rparr>)" by (rule exI)
  with assms Some show ?thesis by (auto simp: same_except_def)
qed

lemma list_getitem_valid:
  "0 \<le> p \<Longrightarrow> p < int (length xs) \<Longrightarrow> list_getitem xs p = Inr (xs ! nat p)"
  by (simp add: list_getitem_def)

lemma lite_loop_noop:
  assumes "\<forall>p\<in>set pnos. 0 \<le> p \<and> p < int (length (page_items v))" "unrendered v pnos = []"
  shows "visible_lite_loop pnos count dn v = Inr ([], v)"
  using assms
proof (induction pnos)
  case Nil
  then show ?case by simp
next
  case (Cons p pnos)
  from Cons.prems(2) have r: "original_img (page_items v ! nat p) \<noteq> None"
    and rest: "unrendered v pnos = []"
    by (auto simp: unrendered_def split: if_splits)
  have g: "list_getitem (page_items v) p = Inr (page_items v ! nat p)"
    using Cons.prems(1) by (simp add: list_getitem_valid)
  have "visible_lite_loop pnos count dn v = Inr ([], v)"
    using Cons.IH Cons.prems(1) rest by simp
  with g r show ?case by auto
qed

lemma lite_step:
  assumes m: "model v = Some m" "dm_inv m"
    and p: "0 \<le> p" "p < int (length (page_items v))"
  shows "\<exists>r c. render_single_page_raw v p = (r, v\<lparr>model := Some (m\<lparr>page_pix_cache := c\<rparr>)\<rparr>) \<and>
           same_except v (set_original_img (v\<lparr>model := Some (m\<lparr>page_pix_cache := c\<rparr>)\<rparr>) p r) [p] \<and>
           dm_inv (m\<lparr>page_pix_cache := c\<rparr>)"
proof -
  from render_single_page_raw_keeps [OF m, of p]
  obtain r c where rs: "render_single_page_raw v p = (r, v\<lparr>model := Some (m\<lparr>page_pix_cache := c\<rparr>)\<rparr>)"
    by blast
  let ?v2 = "set_original_img (v\<lparr>model := Some (m\<lparr>page_pix_cache := c\<rparr>)\<rparr>) p r"
  have "length (page_items ?v2) = length (page_items v)"
    by (simp add: set_original_img_def)
  moreover have "\<forall>j<length (page_items v). int j \<notin> set [p] \<longrightarrow> page_items ?v2 ! j = page_items v ! j"
    using p by (auto simp: set_original_img_def)
  moreover have "\<exists>c'. model ?v2 = Some (m\<lparr>page_pix_cache := c'\<rparr>)"
  proof -
    have "model ?v2 = Some (m\<lparr>page_pix_cache := c\<rparr>)" by (simp add: set_original_img_def)
    then show ?thesis by (rule exI)
  qed
  ultimately have "same_except v ?v2 [p]" using m(1) by (simp add: same_except_def)
  moreover have "dm_inv (m\<lparr>page_pix_cache := c\<rparr>)" using m(2) by (simp add: dm_inv_cache)
  ultimately show ?thesis using rs by blast
qed

lemma lite_loop:
  assumes "model v = Some m" "dm_inv m"
    and "\<forall>p\<in>set pnos. 0 \<le> p \<and> p < int (length (page_items v))"
    and "distinct pnos" "dn < count"
  shows "\<exists>v'. visible_lite_loop pnos count dn v =
                Inr (take (nat (count - dn)) (unrendered v pnos), v') \<and>
              same_except v v' (take (nat (count - dn)) (unrendered v pnos))"
  using assms
proof (induction pnos arbitrary: v m dn)
  case Nil
  then show ?case by (simp add: unrendered_def same_except_refl)
next
  case (Cons p pnos)
  have pv: "0 \<le> p" "p < int (length (page_items v))" using Cons.prems(3) by simp_all
  have g: "list_getitem (page_items v) p = Inr (page_items v ! nat p)"
    using pv by (rule list_getitem_valid)
  have valid: "\<forall>q\<in>set pnos. 0 \<le> q \<and> q < int (length (page_items v))"
    using Cons.prems(3) by simp
  have dist: "distinct pnos" and pnotin: "p \<notin> set pnos" using Cons.prems(4) by simp_all
  show ?case
  proof (cases "original_img (page_items v ! nat p) = None")
    case False
    then have u: "unrendered v (p # pnos) = unrendered v pnos" by (simp add: unrendered_def)
    have l: "visible_lite_loop (p # pnos) count dn v = visible_lite_loop pnos count dn v"
      using g False by auto
    from Cons.IH [OF Cons.prems(1,2) valid dist Cons.prems(5)] show ?thesis
      unfolding u l .
  next
    case True
    then have u: "unrendered v (p # pnos) = p # unrendered v pnos" by (simp add: unrendered_def)
    from lite_step [OF Cons.prems(1,2) pv]
    obtain r c where rs: "render_single_page_raw v p = (r, v\<lparr>model := Some (m\<lparr>page_pix_cache := c\<rparr>)\<rparr>)"
      and se: "same_except v (set_original_img (v\<lparr>model := Some (m\<lparr>page_pix_cache := c\<rparr>)\<rparr>) p r) [p]"
      and inv1: "dm_inv (m\<lparr>page_pix_cache := c\<rparr>)"
      by blast
    let ?v2 = "set_original_img (v\<lparr>model := Some (m\<lparr>page_pix_cache := c\<rparr>)\<rparr>) p r"
    have m2: "model ?v2 = Some (m\<lparr>page_pix_cache := c\<rparr>)" by (simp add: set_original_img_def)
    have len2: "length (page_items ?v2) = length (page_items v)"
      by (simp add: set_original_img_def)
    have items2: "page_items ?v2 ! nat q = page_items v ! nat q" if "q \<in> set pnos" for q
    proof -
      from that pnotin have "q \<noteq> p" by auto
      moreover from that valid have "0 \<le> q" by simp
      ultimately have "nat q \<noteq> nat p" using pv(1) by simp
      then show ?thesis by (simp add: set_original_img_def)
    qed
    then have u2: "unrendered ?v2 pnos = unrendered v pnos"
      by (intro unrendered_cong) simp
    show ?thesis
    proof (cases "dn + 1 \<ge> count")
      case stop: True
      then have one: "nat (count - dn) = 1" using Cons.prems(5) by simp
      have "visible_lite_loop (p # pnos) count dn v = Inr ([p], ?v2)"
        using g True rs stop by (simp add: Let_def)
      moreover have "take (nat (count - dn)) (unrendered v (p # pnos)) = [p]"
        unfolding u one by simp
      ultimately show ?thesis using se by simp
    next
      case go: False
      then have dn1: "dn + 1 < count" by simp
      have valid2: "\<forall>q\<in>set pnos. 0 \<le> q \<and> q < int (length (page_items ?v2))"
        using valid len2 by simp
      from Cons.IH [OF m2 inv1 valid2 dist dn1]
      obtain v3 where v3: "visible_lite_loop pnos count (dn + 1) ?v2 =
            Inr (take (nat (count - (dn + 1))) (unrendered ?v2 pnos), v3)"
        and se3: "same_except ?v2 v3 (take (nat (count - (dn + 1))) (unrendered ?v2 pnos))"
        by blast
      let ?calls = "take (nat (count - (dn + 1))) (unrendered v pnos)"
      have l: "visible_lite_loop (p # pnos) count dn v = Inr (p # ?calls, v3)"
        using g True rs go v3 by (simp add: Let_def u2)
      have "nat (count - dn) = Suc (nat (count - (dn + 1)))" using dn1 by simp
      then have t: "take (nat (count - dn)) (unrendered v (p # pnos)) = p # ?calls"
        unfolding u by simp
      from same_except_trans [OF se se3] have "same_except v v3 (p # ?calls)"
        by (simp add: u2)
      with l t show ?thesis by simp
    qed
  qed
qed

lemma render_visible_lite_calls:
  assumes inv: "view_inv v" and m: "model v = Some m" and c: "1 \<le> count"
  shows "\<exists>v'. render_visible_lite v count =
                Inr (take (nat count)
                       (unrendered v [fst (visible_range v)..snd (visible_range v)]), v') \<and>
              same_except v v'
                (take (nat count) (unrendered v [fst (visible_range v)..snd (visible_range v)])) \<and>
              (unrendered v [fst (visible_range v)..snd (visible_range v)] = [] \<longrightarrow> v' = v)"
proof -
  let ?pnos = "[fst (visible_range v)..snd (visible_range v)]"
  have dm: "dm_inv m" using inv m by (simp add: view_inv_def)
  have valid: "\<forall>p\<in>set ?pnos. 0 \<le> p \<and> p < int (length (page_items v))"
    using visible_range_valid by blast
  have dist: "distinct ?pnos" by simp
  have c0: "(0::int) < count" using c by simp
  have rv: "render_visible_lite v count = visible_lite_loop ?pnos count 0 v"
    using m by (simp add: render_visible_lite_def split: prod.splits)
  from lite_loop [OF m dm valid dist c0]
  obtain v' where v': "visible_lite_loop ?pnos count 0 v =
        Inr (take (nat (count - 0)) (unrendered v ?pnos), v')"
      "same_except v v' (take (nat (count - 0)) (unrendered v ?pnos))"
    by blast
  have "v' = v" if "unrendered v ?pnos = []"
    using lite_loop_noop [OF valid that, of count 0] v'(1) by simp
  with v' rv show ?thesis by simp
qed

lemma upto_0_1: "[0..1] = [0, 1::int]"
  by (simp add: upto.simps)

lemma ex_visible_range: "visible_range ex_view = (0, 1)"
  by (simp add: visible_range_def ex_view_fields Let_def)

lemma ex_closed_fields:
  "model ex_view_closed = Some ((ex_model ''simple'')\<lparr>doc := None\<rparr>)"
  "page_items ex_view_closed = page_items ex_view"
  "vp_top ex_view_closed = 0" "vp_bot ex_view_closed = 600" "spacing ex_view_closed = 12"
  by (simp_all add: ex_view_closed_def DocModel_close_def ex_view_fields)
     (simp add: ex_model_def)

lemma ex_closed_visible_range: "visible_range ex_view_closed = (0, 1)"
  by (simp add: visible_range_def ex_closed_fields ex_view_fields Let_def)

lemma ex_closed_render: "render_single_page_raw ex_view_closed 0 = (None, ex_view_closed)"
proof -
  let ?m = "(ex_model ''simple'')\<lparr>doc := None\<rparr>"
  have "render_page ?m 0 (safe_png ex_view_closed) = (Inr None, ?m)"
    by (rule render_page_absent) simp
  moreover have "ex_view_closed\<lparr>model := Some ?m\<rparr> = ex_view_closed"
    using ex_closed_fields(1) by simp
  ultimately show ?thesis
    by (simp add: render_single_page_raw_def ex_closed_fields(1))
qed

text \<open>
  Claim C10, as amended. Let the view hold a model with one widget per page and let
  \<open>count \<ge> 1\<close>. \<open>renderVisible(count)\<close> raises nothing and hands to the renderer exactly
  the first \<open>count\<close> pages of the visible range that lack an image, in page order, or
  all of them when they are fewer. So it makes at most \<open>count\<close> render attempts, and it
  stops before the end of the range only when \<open>count\<close> attempts have been made, whether
  or not they produced an image. Apart from the model's cache only the widgets of the
  attempted pages can change, and when every visible page already has an image the
  view is left exactly as it was.
\<close>

theorem render_visible_lite_attempts:
  assumes "view_inv v" and "model v = Some m" and "1 \<le> count"
  shows "\<exists>v'. render_visible_lite v count =
                Inr (take (nat count)
                       (unrendered v [fst (visible_range v)..snd (visible_range v)]), v') \<and>
              same_except v v'
                (take (nat count) (unrendered v [fst (visible_range v)..snd (visible_range v)])) \<and>
              (unrendered v [fst (visible_range v)..snd (visible_range v)] = [] \<longrightarrow> v' = v)"
  using render_visible_lite_calls [OF assms] .

theorem render_visible_lite_attempts_witness:
  "view_inv ex_view \<and> model ex_view = Some (ex_model ''simple'') \<and> (1::int) \<le> 1 \<and>
   visible_range ex_view = (0, 1) \<and> unrendered ex_view [0..1] = [0, 1] \<and>
   (\<exists>v'. render_visible_lite ex_view 1 = Inr ([0], v') \<and> same_except ex_view v' [0])"
proof -
  have c: "(1::int) \<le> 1" by simp
  have u: "unrendered ex_view [0..1] = [0, 1]"
    by (simp add: unrendered_def upto_0_1 ex_view_fields)
  from render_visible_lite_attempts [OF ex_view_inv ex_view_fields(1) c]
  obtain v' where "render_visible_lite ex_view 1 =
        Inr (take (nat 1) (unrendered ex_view [fst (visible_range ex_view)..snd (visible_range ex_view)]), v')"
      "same_except ex_view v'
        (take (nat 1) (unrendered ex_view [fst (visible_range ex_view)..snd (visible_range ex_view)]))"
    by blast
  then have "render_visible_lite ex_view 1 = Inr ([0], v') \<and> same_except ex_view v' [0]"
    by (simp add: ex_visible_range u)
  then have "\<exists>v'. render_visible_lite ex_view 1 = Inr ([0], v') \<and> same_except ex_view v' [0]"
    by (rule exI)
  with ex_view_inv ex_view_fields(1) c ex_visible_range u show ?thesis by (intro conjI)
qed

text \<open>
  Claim C10, as stated, fails where it says that the early stop waits for \<open>count\<close> pages
  to have produced an image. In the view whose model has been closed both pages are
  visible and neither has an image; \<open>renderVisible(1)\<close> hands page 0 to the renderer,
  which returns absent, and stops: no page has been rendered, and page 1 has not been
  tried.
\<close>

theorem render_visible_counts_attempts_counterexample:
  "visible_range ex_view_closed = (0, 1) \<and>
   map original_img (page_items ex_view_closed) = [None, None] \<and>
   rendered_state (render_visible_lite ex_view_closed 1) = Some ([0], [None, None])"
proof -
  have it: "map original_img (page_items ex_view_closed) = [None, None]"
    by (simp add: ex_closed_fields ex_view_fields)
  have g: "list_getitem (page_items ex_view_closed) 0 = Inr \<lparr>original_img = None, item_height = 64\<rparr>"
    by (simp add: list_getitem_def ex_closed_fields ex_view_fields)
  have s: "set_original_img ex_view_closed 0 None = ex_view_closed"
    by (simp add: set_original_img_def ex_closed_fields ex_view_fields)
  have "render_visible_lite ex_view_closed 1 = Inr ([0], ex_view_closed)"
    by (simp add: render_visible_lite_def ex_closed_fields(1) ex_closed_visible_range upto_0_1
                  g ex_closed_render s)
  then have "rendered_state (render_visible_lite ex_view_closed 1) = Some ([0], [None, None])"
    by (simp add: rendered_state_def it)
  with ex_closed_visible_range it show ?thesis by (intro conjI)
qed

section \<open>Where the invariants come from\<close>

text \<open>The invariants the theorems assume are those the constructors establish.\<close>

lemma DocModel_init_inv:
  "dm_inv (DocModel_init d md s) \<and> lru_max (page_pix_cache (DocModel_init d md s)) = 20"
  by (simp add: dm_inv_def DocModel_init_def LRUCache_init_def)

lemma DocModel_open_inv:
  assumes "DocModel_open m (Inr pgs) = Inr m'"
  shows "dm_inv m' \<and> doc m' = Some pgs \<and> page_count m' = int (length pgs) \<and>
         page_pix_cache m' = page_pix_cache m"
proof -
  let ?m1 = "m\<lparr>doc := Some pgs, page_count := int (length pgs)\<rparr>"
  from assms have "build ?m1 = Inr m'" by (simp add: DocModel_open_def)
  then obtain st where "m' = finish_build ?m1 st"
    by (auto simp: build_eq split: sum.splits)
  then show ?thesis by (simp add: finish_build_def dm_inv_def)
qed

lemma DocModel_close_inv: "dm_inv m \<Longrightarrow> dm_inv (DocModel_close m)"
  by (cases "doc m") (auto simp: dm_inv_def DocModel_close_def)

lemma set_model_inv:
  assumes "dm_inv m" "0 \<le> page_count m"
  shows "view_inv (set_model v (Some m) h)"
  using assms by (simp add: view_inv_def set_model_def Let_def py_range_def)

end
